theory Spec2Isabelle
  imports Main "HOL-Library.AList" "HOL-Library.Char_ord" "HOL-Library.List_Lexorder"
    "HOL-Library.Multiset"
begin

section \<open>The automaton value type (class fsm of fsm.py)\<close>

text \<open>
  The exceptions of fsm.py. \<open>BadFsmException\<close> is raised at five places of
  \<open>fsm.__init__\<close>; the argument records which one. \<open>KeyError\<close> is what a
  dictionary lookup \<open>d[k]\<close> raises on a missing key. \<open>AlphabetException\<close> is the
  plain \<open>Exception("Alphabet ... must be ...")\<close> of the binary operators,
  \<open>LoopsException\<close> the plain \<open>Exception("Did you forget applyLoops()?")\<close> of
  \<open>pattern\<close>.
\<close>

datatype bad =
    InitialNotInStates
  | FinalsNotInStates
  | StateNotInMap
  | SymbolNotInMap
  | TargetNotInStates

datatype error = BadFsmException bad | KeyError | AlphabetException | LoopsException

text \<open>
  A Python set is a list without regard to order (the order of the list is the order
  in which the set is iterated); a dictionary is an association list read with
  \<open>map_of\<close>. The field \<open>map\<close> of the source is \<open>map_d\<close> here.
\<close>

record ('a, 'q) fsm =
  alphabet :: "'a list"
  states :: "'q list"
  initial :: 'q
  finals :: "'q list"
  map_d :: "('q \<times> ('a \<times> 'q) list) list"

text \<open>\<open>d[k]\<close> on a dictionary: the value, or KeyError.\<close>

definition getitem :: "('k \<times> 'v) list \<Rightarrow> 'k \<Rightarrow> error + 'v" where
  "getitem d k = (case map_of d k of None \<Rightarrow> Inl KeyError | Some v \<Rightarrow> Inr v)"

text \<open>\<open>self.map[state][symbol]\<close>.\<close>

definition lookup :: "('a, 'q) fsm \<Rightarrow> 'q \<Rightarrow> 'a \<Rightarrow> error + 'q" where
  "lookup M state symbol =
     (case getitem (map_d M) state of
        Inl e \<Rightarrow> Inl e
      | Inr row \<Rightarrow> getitem row symbol)"

text \<open>
  The validation loops of \<open>fsm.__init__\<close> (lines 58 to 65): the first violation met
  raises. \<open>check_symbols\<close> is the inner loop over the alphabet for one state,
  \<open>check_states\<close> the outer loop over the states.
\<close>

fun check_symbols :: "'q list \<Rightarrow> ('a \<times> 'q) list \<Rightarrow> 'a list \<Rightarrow> bad option" where
  "check_symbols sts row [] = None"
| "check_symbols sts row (symbol # symbols) =
     (case map_of row symbol of
        None \<Rightarrow> Some SymbolNotInMap
      | Some t \<Rightarrow>
          if t \<notin> set sts then Some TargetNotInStates
          else check_symbols sts row symbols)"

fun check_states :: "('a, 'q) fsm \<Rightarrow> 'q list \<Rightarrow> bad option" where
  "check_states M [] = None"
| "check_states M (state # rest) =
     (case map_of (map_d M) state of
        None \<Rightarrow> Some StateNotInMap
      | Some row \<Rightarrow>
          (case check_symbols (states M) row (alphabet M) of
             Some b \<Rightarrow> Some b
           | None \<Rightarrow> check_states M rest))"

text \<open>
  \<open>fsm.__init__\<close>: the fields are stored (\<open>set(states)\<close> and \<open>set(finals)\<close> drop
  duplicates), then validated; an exception leaves no object behind.
\<close>

definition fsm_init ::
  "'a list \<Rightarrow> 'q list \<Rightarrow> 'q \<Rightarrow> 'q list \<Rightarrow> ('q \<times> ('a \<times> 'q) list) list \<Rightarrow> error + ('a, 'q) fsm"
where
  "fsm_init al sts ini fins m =
     (let self = \<lparr>alphabet = al, states = remdups sts, initial = ini,
                  finals = remdups fins, map_d = m\<rparr>
      in if initial self \<notin> set (states self) then Inl (BadFsmException InitialNotInStates)
         else if \<not> set (finals self) \<subseteq> set (states self)
           then Inl (BadFsmException FinalsNotInStates)
         else (case check_states self (states self) of
                 Some b \<Rightarrow> Inl (BadFsmException b)
               | None \<Rightarrow> Inr self))"

text \<open>
  An automaton value is one the constructor returns. Since the constructor stores
  what it is given, these are the records that the constructor returns unchanged.
\<close>

definition is_fsm :: "('a, 'q) fsm \<Rightarrow> bool" where
  "is_fsm M \<longleftrightarrow>
     fsm_init (alphabet M) (states M) (initial M) (finals M) (map_d M) = Inr M"

text \<open>\<open>fsm.accepts\<close>: the loop over the input, from a given state.\<close>

fun accepts_from :: "('a, 'q) fsm \<Rightarrow> 'q \<Rightarrow> 'a list \<Rightarrow> error + bool" where
  "accepts_from M state [] = Inr (state \<in> set (finals M))"
| "accepts_from M state (symbol # input) =
     (case lookup M state symbol of
        Inl e \<Rightarrow> Inl e
      | Inr t \<Rightarrow> accepts_from M t input)"

definition accepts :: "('a, 'q) fsm \<Rightarrow> 'a list \<Rightarrow> error + bool" where
  "accepts M input = accepts_from M (initial M) input"


section \<open>Equivalence and merging of states\<close>

text \<open>Sequencing of computations that may raise: the first exception is the result.\<close>

definition bindE :: "error + 'x \<Rightarrow> ('x \<Rightarrow> error + 'y) \<Rightarrow> error + 'y" where
  "bindE r f = (case r of Inl e \<Rightarrow> Inl e | Inr v \<Rightarrow> f v)"

text \<open>A list comprehension whose element expression may raise.\<close>

fun mapE :: "('x \<Rightarrow> error + 'y) \<Rightarrow> 'x list \<Rightarrow> error + 'y list" where
  "mapE f [] = Inr []"
| "mapE f (x # xs) = bindE (f x) (\<lambda>y. bindE (mapE f xs) (\<lambda>ys. Inr (y # ys)))"

text \<open>
  \<open>dict(pairs)\<close>: the pairs are stored from left to right, a later pair replacing the
  value of an equal earlier key.
\<close>

definition dict :: "('k \<times> 'v) list \<Rightarrow> ('k \<times> 'v) list" where
  "dict pairs = fold (\<lambda>(k, v) d. AList.update k v d) pairs []"

text \<open>\<open>fsm.equivalent\<close>: the loop over the alphabet (lines 89 to 99), then the method.\<close>

fun equivalent_loop :: "('a, 'q) fsm \<Rightarrow> 'q \<Rightarrow> 'q \<Rightarrow> 'a list \<Rightarrow> error + bool" where
  "equivalent_loop M state1 state2 [] = Inr True"
| "equivalent_loop M state1 state2 (symbol # symbols) =
     bindE (lookup M state1 symbol) (\<lambda>next1.
     bindE (lookup M state2 symbol) (\<lambda>next2.
       let next1' = (if next1 = state2 then state1 else next1);
           next2' = (if next2 = state2 then state1 else next2)
       in if next1' \<noteq> next2' then Inr False
          else equivalent_loop M state1 state2 symbols))"

definition equivalent :: "('a, 'q) fsm \<Rightarrow> 'q \<Rightarrow> 'q \<Rightarrow> error + bool" where
  "equivalent M state1 state2 =
     (if (state1 \<in> set (finals M)) \<noteq> (state2 \<in> set (finals M)) then Inr False
      else equivalent_loop M state1 state2 (alphabet M))"

text \<open>
  \<open>fsm.replace\<close>: \<open>lookups\<close> renames \<open>this\<close> to \<open>that\<close>; the new automaton is built
  by the constructor, which validates it.
\<close>

definition replace_row ::
  "('q \<times> 'q) list \<Rightarrow> ('a, 'q) fsm \<Rightarrow> 'q \<Rightarrow> error + ('q \<times> ('a \<times> 'q) list)"
where
  "replace_row lookups M s =
     bindE (getitem lookups s) (\<lambda>s'.
     bindE (getitem (map_d M) s) (\<lambda>row.
     bindE (mapE (\<lambda>a. bindE (lookup M s a) (\<lambda>t.
                      bindE (getitem lookups t) (\<lambda>t'. Inr (a, t'))))
             (map fst row)) (\<lambda>pairs.
       Inr (s', dict pairs))))"

definition replace :: "('a, 'q) fsm \<Rightarrow> 'q \<Rightarrow> 'q \<Rightarrow> error + ('a, 'q) fsm" where
  "replace M this that =
     (let lookups = dict (map (\<lambda>s. (s, if s = this then that else s)) (states M))
      in bindE (mapE (getitem lookups) (states M)) (\<lambda>sts.
         bindE (getitem lookups (initial M)) (\<lambda>ini.
         bindE (mapE (getitem lookups) (finals M)) (\<lambda>fins.
         bindE (mapE (replace_row lookups M) (map fst (map_d M))) (\<lambda>rows.
           fsm_init (alphabet M) sts ini fins (dict rows))))))"

text \<open>
  \<open>trymerge\<close> of \<open>fsm.automerge\<close>: two nested loops over the states; \<open>None\<close> is
  the pair \<open>(False, self)\<close> of the source, \<open>Some N\<close> the pair \<open>(True, N)\<close>.
\<close>

fun trymerge_that :: "('a, 'q) fsm \<Rightarrow> 'q \<Rightarrow> 'q list \<Rightarrow> error + ('a, 'q) fsm option" where
  "trymerge_that M this [] = Inr None"
| "trymerge_that M this (that # rest) =
     (if that = this then trymerge_that M this rest
      else bindE (equivalent M this that) (\<lambda>eq.
        if eq then bindE (replace M this that) (\<lambda>N. Inr (Some N))
        else trymerge_that M this rest))"

fun trymerge_this :: "('a, 'q) fsm \<Rightarrow> 'q list \<Rightarrow> error + ('a, 'q) fsm option" where
  "trymerge_this M [] = Inr None"
| "trymerge_this M (this # rest) =
     bindE (trymerge_that M this (states M)) (\<lambda>r.
       case r of Some N \<Rightarrow> Inr (Some N) | None \<Rightarrow> trymerge_this M rest)"

definition trymerge :: "('a, 'q) fsm \<Rightarrow> error + (bool \<times> ('a, 'q) fsm)" where
  "trymerge M =
     bindE (trymerge_this M (states M)) (\<lambda>r.
       case r of Some N \<Rightarrow> Inr (True, N) | None \<Rightarrow> Inr (False, M))"

text \<open>Facts about raising computations and about \<open>dict\<close>.\<close>

lemma bindE_simps [simp]: "bindE (Inl e) f = Inl e" "bindE (Inr v) f = f v"
  by (simp_all add: bindE_def)

lemma bindE_Inr_iff: "bindE r f = Inr y \<longleftrightarrow> (\<exists>v. r = Inr v \<and> f v = Inr y)"
  by (cases r) simp_all

lemma mapE_Inr_iff:
  "mapE f xs = Inr ys \<longleftrightarrow> (\<forall>x\<in>set xs. \<exists>y. f x = Inr y) \<and> ys = map (\<lambda>x. projr (f x)) xs"
  by (induction xs arbitrary: ys) (auto simp: bindE_Inr_iff)

lemma map_of_fold_update:
  "map_of (fold (\<lambda>(k, v) d. AList.update k v d) ps d) = map_of d ++ map_of (rev ps)"
  by (induction ps arbitrary: d) (auto simp: update_conv' map_add_def fun_eq_iff split: option.splits)

lemma map_of_dict: "map_of (dict ps) = map_of (rev ps)"
  by (simp add: dict_def map_of_fold_update)

lemma map_of_dict_graph:
  "map_of (dict (map (\<lambda>x. (x, f x)) xs)) = (\<lambda>x. if x \<in> set xs then Some (f x) else None)"
  unfolding map_of_dict
  by (induction xs) (auto simp: fun_eq_iff map_add_def split: option.splits)

lemma getitem_lookups:
  "getitem (dict (map (\<lambda>x. (x, f x)) xs)) s = (if s \<in> set xs then Inr (f s) else Inl KeyError)"
  by (simp add: getitem_def map_of_dict_graph)

lemma fsm_init_Inr_states: "fsm_init al sts i f m = Inr N \<Longrightarrow> states N = remdups sts"
  by (auto simp: fsm_init_def Let_def split: if_splits option.splits)

lemma replace_states:
  assumes "replace M this that = Inr N"
  shows "states N = remdups (map (\<lambda>s. if s = this then that else s) (states M))"
  using assms
  by (auto simp: replace_def Let_def bindE_Inr_iff mapE_Inr_iff getitem_lookups
      dest!: fsm_init_Inr_states intro!: arg_cong[where f=remdups])

lemma trymerge_that_Some:
  "trymerge_that M this ys = Inr (Some N) \<Longrightarrow>
     \<exists>that\<in>set ys. that \<noteq> this \<and> equivalent M this that = Inr True \<and> replace M this that = Inr N"
  by (induction ys) (auto simp: bindE_Inr_iff split: if_splits)

lemma trymerge_this_Some:
  "trymerge_this M xs = Inr (Some N) \<Longrightarrow>
     \<exists>this\<in>set xs. \<exists>that\<in>set (states M). that \<noteq> this \<and> equivalent M this that = Inr True
        \<and> replace M this that = Inr N"
  by (induction xs) (auto simp: bindE_Inr_iff split: option.splits dest: trymerge_that_Some)

lemma trymerge_True:
  "trymerge M = Inr (True, N) \<Longrightarrow>
     \<exists>this\<in>set (states M). \<exists>that\<in>set (states M). that \<noteq> this \<and> equivalent M this that = Inr True
        \<and> replace M this that = Inr N"
  by (auto simp: trymerge_def bindE_Inr_iff split: option.splits dest: trymerge_this_Some)

lemma rename_card:
  assumes "this \<in> set xs" "that \<in> set xs" "that \<noteq> this"
  shows "length (remdups (map (\<lambda>s. if s = this then that else s) xs)) < length xs"
proof -
  have "set (map (\<lambda>s. if s = this then that else s) xs) = set xs - {this}"
    using assms by auto
  then have "length (remdups (map (\<lambda>s. if s = this then that else s) xs)) = card (set xs - {this})"
    by (simp add: length_remdups_card_conv)
  also have "\<dots> < card (set xs)"
    by (rule card_Diff1_less) (use assms in auto)
  also have "\<dots> \<le> length xs" by (rule card_length)
  finally show ?thesis .
qed

lemma trymerge_decreases:
  "trymerge M = Inr (True, N) \<Longrightarrow> length (states N) < length (states M)"
  by (auto dest!: trymerge_True simp: replace_states rename_card)

text \<open>
  \<open>fsm.automerge\<close>: the loop \<open>while(keepMerging)\<close>. It ends because every merge
  removes a state.
\<close>

function automerge :: "('a, 'q) fsm \<Rightarrow> error + ('a, 'q) fsm" where
  "automerge new =
     (case trymerge new of
        Inl e \<Rightarrow> Inl e
      | Inr (keepMerging, new') \<Rightarrow> if keepMerging then automerge new' else Inr new')"
  by pat_completeness auto
termination
  by (relation "measure (\<lambda>M. length (states M))") (auto simp: trymerge_decreases)

section \<open>The construction procedure \<open>_crawl\<close>\<close>

text \<open>\<open>states.index(nextState)\<close>: the first position, \<open>None\<close> for ValueError.\<close>

fun index_of :: "'s list \<Rightarrow> 's \<Rightarrow> nat option" where
  "index_of [] x = None"
| "index_of (y # ys) x = (if y = x then Some 0 else map_option Suc (index_of ys x))"

text \<open>
  The inner loop, over the sorted symbols, for the superstate \<open>state\<close>: it appends the
  superstates it has not met to \<open>sts\<close> and fills the row \<open>map[i]\<close>. \<open>getNext\<close> may
  raise.
\<close>

fun crawl_symbols ::
  "('s \<Rightarrow> 'a \<Rightarrow> error + 's) \<Rightarrow> 's \<Rightarrow> 'a list \<Rightarrow> 's list \<Rightarrow> ('a \<times> nat) list
     \<Rightarrow> error + ('s list \<times> ('a \<times> nat) list)"
where
  "crawl_symbols getNext state [] sts row = Inr (sts, row)"
| "crawl_symbols getNext state (symbol # symbols) sts row =
     bindE (getNext state symbol) (\<lambda>nextState.
       case index_of sts nextState of
         Some j \<Rightarrow> crawl_symbols getNext state symbols sts (AList.update symbol j row)
       | None \<Rightarrow>
           crawl_symbols getNext state symbols (sts @ [nextState])
             (AList.update symbol (length sts) row))"

text \<open>
  The outer loop \<open>while i < len(states)\<close>, over a list that grows. Nothing bounds
  it; a run that never ends is the value \<open>None\<close>.
\<close>

partial_function (option) crawl_loop ::
  "('s \<Rightarrow> bool) \<Rightarrow> ('s \<Rightarrow> 'a \<Rightarrow> error + 's) \<Rightarrow> 'a list \<Rightarrow> nat \<Rightarrow> 's list \<Rightarrow> nat list
     \<Rightarrow> (nat \<times> ('a \<times> nat) list) list
     \<Rightarrow> (error + ('s list \<times> nat list \<times> (nat \<times> ('a \<times> nat) list) list)) option"
where
  "crawl_loop isFinal getNext symbols i sts fins m =
     (if i < length sts then
        (case crawl_symbols getNext (sts ! i) symbols sts [] of
           Inl e \<Rightarrow> Some (Inl e)
         | Inr (sts', row) \<Rightarrow>
             crawl_loop isFinal getNext symbols (i + 1) sts'
               (if isFinal (sts ! i) then List.insert i fins else fins)
               (AList.update i row m))
      else Some (Inr (sts, fins, m)))"

declare crawl_loop.simps [code]

text \<open>
  \<open>_crawl\<close>. The parameter \<open>str\<close> is Python's \<open>str\<close> on the symbols, the key of
  \<open>sorted(alphabet, key=str)\<close>; \<open>sort_key\<close> is stable, as \<open>sorted\<close> is.
\<close>

definition crawl ::
  "('a \<Rightarrow> string) \<Rightarrow> 'a list \<Rightarrow> 's \<Rightarrow> ('s \<Rightarrow> bool) \<Rightarrow> ('s \<Rightarrow> 'a \<Rightarrow> error + 's)
     \<Rightarrow> (error + ('a, nat) fsm) option"
where
  "crawl str al ini isFinal getNext =
     (case crawl_loop isFinal getNext (sort_key str al) 0 [ini] [] [] of
        None \<Rightarrow> None
      | Some (Inl e) \<Rightarrow> Some (Inl e)
      | Some (Inr (sts, fins, m)) \<Rightarrow>
          Some (bindE (fsm_init al [0..<length sts] 0 fins m) automerge))"

section \<open>The operators\<close>

text \<open>
  A loop over a frozenset that collects what each element contributes into a new
  frozenset. The only exception the contributions raise is KeyError.
\<close>

definition collect :: "('x \<Rightarrow> error + 'y set) \<Rightarrow> 'x set \<Rightarrow> error + 'y set" where
  "collect f S = (if \<exists>x\<in>S. isl (f x) then Inl KeyError else Inr (\<Union>x\<in>S. projr (f x)))"

text \<open>
  \<open>fsm.__add__\<close>. A tagged state \<open>(0, s)\<close> of the source is \<open>Inl s\<close>, \<open>(1, s)\<close> is
  \<open>Inr s\<close>; the branch \<open>raise Exception("What")\<close> for another tag has no value here.
\<close>

definition add_isFinal :: "('a, 'p) fsm \<Rightarrow> ('a, 'q) fsm \<Rightarrow> ('p + 'q) set \<Rightarrow> bool" where
  "add_isFinal self other currentState \<longleftrightarrow>
     (\<exists>x\<in>currentState. case x of
          Inl state \<Rightarrow> state \<in> set (finals self) \<and> initial other \<in> set (finals other)
        | Inr state \<Rightarrow> state \<in> set (finals other))"

definition add_next :: "('a, 'p) fsm \<Rightarrow> ('a, 'q) fsm \<Rightarrow> 'a \<Rightarrow> 'p + 'q \<Rightarrow> error + ('p + 'q) set" where
  "add_next self other symbol x =
     (case x of
        Inl state \<Rightarrow>
          bindE (lookup self state symbol) (\<lambda>t.
            Inr (if t \<in> set (finals self) then {Inl t, Inr (initial other)} else {Inl t}))
      | Inr state \<Rightarrow> bindE (lookup other state symbol) (\<lambda>t. Inr {Inr t}))"

definition add_getNext ::
  "('a, 'p) fsm \<Rightarrow> ('a, 'q) fsm \<Rightarrow> ('p + 'q) set \<Rightarrow> 'a \<Rightarrow> error + ('p + 'q) set"
where
  "add_getNext self other currentState symbol = collect (add_next self other symbol) currentState"

definition fsm_add ::
  "('a \<Rightarrow> string) \<Rightarrow> ('a, 'p) fsm \<Rightarrow> ('a, 'q) fsm \<Rightarrow> (error + ('a, nat) fsm) option"
where
  "fsm_add str self other =
     (if set (alphabet other) \<noteq> set (alphabet self) then Some (Inl AlphabetException)
      else
        let newInitial =
              (if initial self \<in> set (finals self) then {Inl (initial self), Inr (initial other)}
               else {Inl (initial self)})
        in crawl str (alphabet self) newInitial (add_isFinal self other) (add_getNext self other))"

text \<open>
  \<open>fsm.star\<close>, for automata whose states are natural numbers (as those of \<open>_crawl\<close>
  are): \<open>omega_loop\<close> is the search for the first number that is not a state.
\<close>

function omega_loop :: "nat list \<Rightarrow> nat \<Rightarrow> nat" where
  "omega_loop sts omegaState =
     (if omegaState \<in> set sts then omega_loop sts (omegaState + 1) else omegaState)"
  by pat_completeness auto
termination
  by (relation "measure (\<lambda>(sts, n). Suc (Max (insert 0 (set sts))) - n)")
     (auto simp: Suc_diff_le)

definition star_next :: "('a, nat) fsm \<Rightarrow> nat \<Rightarrow> 'a \<Rightarrow> nat \<Rightarrow> error + nat set" where
  "star_next self omegaState symbol state =
     (let state' = (if state = omegaState then initial self else state)
      in bindE (lookup self state' symbol) (\<lambda>nextAState.
           Inr (if nextAState \<in> set (finals self) then {nextAState, omegaState}
                else {nextAState})))"

definition star_getNext :: "('a, nat) fsm \<Rightarrow> nat \<Rightarrow> nat set \<Rightarrow> 'a \<Rightarrow> error + nat set" where
  "star_getNext self omegaState currentState symbol =
     collect (star_next self omegaState symbol) currentState"

definition star_isFinal :: "nat \<Rightarrow> nat set \<Rightarrow> bool" where
  "star_isFinal omegaState currentState \<longleftrightarrow> omegaState \<in> currentState"

definition star :: "('a \<Rightarrow> string) \<Rightarrow> ('a, nat) fsm \<Rightarrow> (error + ('a, nat) fsm) option" where
  "star str self =
     (let omegaState = omega_loop (states self) 0
      in crawl str (alphabet self) {omegaState} (star_isFinal omegaState)
           (star_getNext self omegaState))"

text \<open>\<open>fsm.__or__\<close> and \<open>fsm.__and__\<close>: the superstates are pairs.\<close>

definition pair_getNext ::
  "('a, 'p) fsm \<Rightarrow> ('a, 'q) fsm \<Rightarrow> 'p \<times> 'q \<Rightarrow> 'a \<Rightarrow> error + 'p \<times> 'q"
where
  "pair_getNext self other currentState symbol =
     bindE (lookup self (fst currentState) symbol) (\<lambda>s.
     bindE (lookup other (snd currentState) symbol) (\<lambda>t. Inr (s, t)))"

definition or_isFinal :: "('a, 'p) fsm \<Rightarrow> ('a, 'q) fsm \<Rightarrow> 'p \<times> 'q \<Rightarrow> bool" where
  "or_isFinal self other currentState \<longleftrightarrow>
     fst currentState \<in> set (finals self) \<or> snd currentState \<in> set (finals other)"

definition and_isFinal :: "('a, 'p) fsm \<Rightarrow> ('a, 'q) fsm \<Rightarrow> 'p \<times> 'q \<Rightarrow> bool" where
  "and_isFinal self other currentState \<longleftrightarrow>
     fst currentState \<in> set (finals self) \<and> snd currentState \<in> set (finals other)"

definition fsm_or ::
  "('a \<Rightarrow> string) \<Rightarrow> ('a, 'p) fsm \<Rightarrow> ('a, 'q) fsm \<Rightarrow> (error + ('a, nat) fsm) option"
where
  "fsm_or str self other =
     (if set (alphabet other) \<noteq> set (alphabet self) then Some (Inl AlphabetException)
      else crawl str (alphabet self) (initial self, initial other) (or_isFinal self other)
             (pair_getNext self other))"

definition fsm_and ::
  "('a \<Rightarrow> string) \<Rightarrow> ('a, 'p) fsm \<Rightarrow> ('a, 'q) fsm \<Rightarrow> (error + ('a, nat) fsm) option"
where
  "fsm_and str self other =
     (if set (alphabet other) \<noteq> set (alphabet self) then Some (Inl AlphabetException)
      else crawl str (alphabet self) (initial self, initial other) (and_isFinal self other)
             (pair_getNext self other))"

text \<open>\<open>null\<close> and \<open>epsilon\<close>.\<close>

definition null :: "'a list \<Rightarrow> error + ('a, nat) fsm" where
  "null al = fsm_init al [0] 0 [] [(0, dict (map (\<lambda>symbol. (symbol, 0)) al))]"

definition epsilon :: "'a list \<Rightarrow> error + ('a, nat) fsm" where
  "epsilon al =
     fsm_init al [0, 1] 0 [0]
       [(0, dict (map (\<lambda>symbol. (symbol, 1)) al)), (1, dict (map (\<lambda>symbol. (symbol, 1)) al))]"

text \<open>
  \<open>fsm.__mul__\<close>. \<open>bindC\<close> sequences operator calls, which may raise or not return;
  \<open>add_times\<close> is a loop \<open>for i in range(n): output += q\<close>.
\<close>

definition bindC ::
  "(error + 'x) option \<Rightarrow> ('x \<Rightarrow> (error + 'y) option) \<Rightarrow> (error + 'y) option"
where
  "bindC r f = (case r of None \<Rightarrow> None | Some (Inl e) \<Rightarrow> Some (Inl e) | Some (Inr v) \<Rightarrow> f v)"

fun add_times ::
  "('a \<Rightarrow> string) \<Rightarrow> ('a, nat) fsm \<Rightarrow> ('a, 'q) fsm \<Rightarrow> nat \<Rightarrow> (error + ('a, nat) fsm) option"
where
  "add_times str output q 0 = Some (Inr output)"
| "add_times str output q (Suc n) =
     bindC (fsm_add str output q) (\<lambda>output'. add_times str output' q n)"

definition fsm_mul ::
  "('a \<Rightarrow> string) \<Rightarrow> ('a, nat) fsm \<Rightarrow> int \<times> int option \<Rightarrow> (error + ('a, nat) fsm) option"
where
  "fsm_mul str self multiplier =
     (case multiplier of (mn, mx) \<Rightarrow>
        bindC (Some (epsilon (alphabet self))) (\<lambda>output.
        bindC (add_times str output self (nat mn)) (\<lambda>output.
          case mx of
            None \<Rightarrow> bindC (star str self) (\<lambda>s. fsm_add str output s)
          | Some mx' \<Rightarrow>
              bindC (Some (epsilon (alphabet self))) (\<lambda>e.
              bindC (fsm_or str self e) (\<lambda>q.
                add_times str output q (nat (mx' - mn)))))))"

section \<open>Automata of the unit tests of fsm.py\<close>

text \<open>
  The automata \<open>a\<close> and \<open>b\<close> of the unit tests (alphabet \<open>{"a", "b"}\<close>; the state
  \<open>"ob"\<close> is 2 here) and \<open>mergeMe2\<close>. \<open>str_char\<close> is \<open>str\<close> on one-character
  strings.
\<close>

definition test_a :: "(char, nat) fsm" where
  "test_a = \<lparr>alphabet = ''ab'', states = [0, 1, 2], initial = 0, finals = [1],
     map_d = [(0, [(CHR ''a'', 1), (CHR ''b'', 2)]),
              (1, [(CHR ''a'', 2), (CHR ''b'', 2)]),
              (2, [(CHR ''a'', 2), (CHR ''b'', 2)])]\<rparr>"

definition test_b :: "(char, nat) fsm" where
  "test_b = \<lparr>alphabet = ''ab'', states = [0, 1, 2], initial = 0, finals = [1],
     map_d = [(0, [(CHR ''a'', 2), (CHR ''b'', 1)]),
              (1, [(CHR ''a'', 2), (CHR ''b'', 2)]),
              (2, [(CHR ''a'', 2), (CHR ''b'', 2)])]\<rparr>"

definition mergeMe2 :: "(char, nat) fsm" where
  "mergeMe2 = \<lparr>alphabet = ''01'', states = [1, 2, 3, 4], initial = 1, finals = [2, 3],
     map_d = [(1, [(CHR ''0'', 2), (CHR ''1'', 3)]),
              (2, [(CHR ''0'', 2), (CHR ''1'', 4)]),
              (3, [(CHR ''0'', 3), (CHR ''1'', 4)]),
              (4, [(CHR ''0'', 4), (CHR ''1'', 4)])]\<rparr>"

definition str_char :: "char \<Rightarrow> string" where
  "str_char c = [c]"

section \<open>Construction and validation\<close>

text \<open>The invariants that \<open>fsm.__init__\<close> checks, as a predicate on the stored fields.\<close>

definition table_ok :: "('a, 'q) fsm \<Rightarrow> bool" where
  "table_ok M \<longleftrightarrow>
     (\<forall>s\<in>set (states M). \<exists>row. map_of (map_d M) s = Some row \<and>
        (\<forall>a\<in>set (alphabet M). \<exists>t\<in>set (states M). map_of row a = Some t))"

lemma check_symbols_None:
  "check_symbols sts row symbols = None \<longleftrightarrow>
     (\<forall>a\<in>set symbols. \<exists>t\<in>set sts. map_of row a = Some t)"
  by (induction symbols) (auto split: option.splits)

lemma check_symbols_Some:
  "check_symbols sts row symbols = Some b \<Longrightarrow> b = SymbolNotInMap \<or> b = TargetNotInStates"
  by (induction symbols) (auto split: option.splits if_splits)

lemma check_states_None:
  "check_states M xs = None \<longleftrightarrow>
     (\<forall>s\<in>set xs. \<exists>row. map_of (map_d M) s = Some row \<and>
        (\<forall>a\<in>set (alphabet M). \<exists>t\<in>set (states M). map_of row a = Some t))"
proof (induction xs)
  case Nil
  show ?case by simp
next
  case (Cons x xs)
  show ?case
  proof (cases "map_of (map_d M) x")
    case None
    then show ?thesis by auto
  next
    case (Some row)
    show ?thesis
    proof (cases "check_symbols (states M) row (alphabet M)")
      case None
      then have "\<forall>a\<in>set (alphabet M). \<exists>t\<in>set (states M). map_of row a = Some t"
        by (simp add: check_symbols_None)
      with Some Cons show ?thesis by (auto simp: None)
    next
      case (Some b)
      then have "\<not> (\<forall>a\<in>set (alphabet M). \<exists>t\<in>set (states M). map_of row a = Some t)"
        using check_symbols_None [of "states M" row "alphabet M"] by simp
      with \<open>map_of (map_d M) x = Some row\<close> show ?thesis by (auto simp: Some)
    qed
  qed
qed

lemma check_states_Some:
  "check_states M xs = Some b \<Longrightarrow>
     b = StateNotInMap \<or> b = SymbolNotInMap \<or> b = TargetNotInStates"
  by (induction xs) (auto split: option.splits dest: check_symbols_Some)

lemma table_ok_check: "table_ok M \<longleftrightarrow> check_states M (states M) = None"
  by (simp add: table_ok_def check_states_None)

text \<open>
  The construction \<open>fsm(alphabet={"a"}, states={0}, initial=0, finals=set(),
  map={0: {"a": 0, "z": 99}})\<close>: the row of the state 0 has an entry for \<open>z\<close>, which is
  not in the alphabet, and its target 99 is not a state.
\<close>

definition stray_target :: "(char, nat) fsm" where
  "stray_target = \<lparr>alphabet = ''a'', states = [0], initial = 0, finals = [],
     map_d = [(0, [(CHR ''a'', 0), (CHR ''z'', 99)])]\<rparr>"

text \<open>
  C6, as stated, fails. The loops of lines 58 to 65 look at \<open>map[state][symbol]\<close> for the
  states and the symbols of the alphabet only, so a transition map with a target outside
  the state set, in an entry for another symbol, does not fail the construction:
  \<open>stray_target\<close> is returned, and its map leads from the state 0 to 99.
\<close>

theorem fsm_init_counterexample:
  "fsm_init ''a'' [0] 0 [] [(0, [(CHR ''a'', 0), (CHR ''z'', 99)])] = Inr stray_target \<and>
   lookup stray_target 0 (CHR ''z'') = Inr 99 \<and> 99 \<notin> set (states stray_target)"
proof -
  have 1: "fsm_init ''a'' [0] 0 [] [(0, [(CHR ''a'', 0), (CHR ''z'', 99)])] = Inr stray_target"
    by code_simp
  have 2: "lookup stray_target 0 (CHR ''z'') = Inr 99" by code_simp
  have 3: "99 \<notin> set (states stray_target)" by (simp add: stray_target_def)
  from 1 2 3 show ?thesis by blast
qed

text \<open>
  C6, amended. The constructor returns the record of the stored fields when the checked
  invariants hold (initial in states, finals a subset of states, a table entry with a
  target in states for every state and every symbol of the alphabet), and otherwise
  raises BadFsmException at the first violated check; it returns nothing else. The
  entries of the map for keys that are not states and for symbols that are not in the
  alphabet are not checked.
\<close>

theorem fsm_init_validates:
  "(let self = \<lparr>alphabet = al, states = remdups sts, initial = ini, finals = remdups fins,
                 map_d = m\<rparr>;
        result = fsm_init al sts ini fins m
    in (ini \<notin> set sts \<longrightarrow> result = Inl (BadFsmException InitialNotInStates)) \<and>
       (ini \<in> set sts \<and> \<not> set fins \<subseteq> set sts \<longrightarrow>
          result = Inl (BadFsmException FinalsNotInStates)) \<and>
       (ini \<in> set sts \<and> set fins \<subseteq> set sts \<and> \<not> table_ok self \<longrightarrow>
          result = Inl (BadFsmException StateNotInMap) \<or>
          result = Inl (BadFsmException SymbolNotInMap) \<or>
          result = Inl (BadFsmException TargetNotInStates)) \<and>
       (ini \<in> set sts \<and> set fins \<subseteq> set sts \<and> table_ok self \<longrightarrow> result = Inr self))"
  by (auto simp: Let_def fsm_init_def table_ok_check split: option.splits
      dest: check_states_Some)

text \<open>
  The five constructions of the unit tests: the automaton \<open>a\<close>, and the four that must
  fail (initial is not a state; finals are not valid; map keys; map key keys).
\<close>

theorem fsm_init_validates_witness:
  "fsm_init ''ab'' [0, 1, 2] 0 [1::nat] (map_d test_a) = Inr test_a \<and>
   fsm_init ([]::char list) [0::nat] 1 [] [(0, [])] = Inl (BadFsmException InitialNotInStates) \<and>
   fsm_init ([]::char list) [0::nat] 0 [1] [(0, [])] = Inl (BadFsmException FinalsNotInStates) \<and>
   fsm_init ([]::char list) [0::nat] 0 [] [] = Inl (BadFsmException StateNotInMap) \<and>
   fsm_init ''a'' [0::nat] 0 [] [(0, [])] = Inl (BadFsmException SymbolNotInMap)"
proof -
  have 1: "fsm_init ''ab'' [0, 1, 2] 0 [1::nat] (map_d test_a) = Inr test_a"
    using fsm_init_validates [where ini="0" and sts="[0, 1, 2::nat]" and fins="[1]" and al="''ab''" and m="map_d test_a"]
    by (simp add: Let_def table_ok_def test_a_def)
  have 2: "fsm_init ([]::char list) [0::nat] 1 [] [(0, [])] = Inl (BadFsmException InitialNotInStates)"
    using fsm_init_validates [where ini=1 and sts="[0::nat]" and fins="[]" and al="[]::char list" and m="[(0, [])]"]
    by (simp add: Let_def)
  have 3: "fsm_init ([]::char list) [0::nat] 0 [1] [(0, [])] = Inl (BadFsmException FinalsNotInStates)"
    using fsm_init_validates [where ini=0 and sts="[0::nat]" and fins="[1]" and al="[]::char list" and m="[(0, [])]"]
    by (simp add: Let_def)
  have 4: "fsm_init ([]::char list) [0::nat] 0 [] [] = Inl (BadFsmException StateNotInMap)"
    using fsm_init_validates [where ini="0" and sts="[0::nat]" and fins="[]" and al="[]::char list" and m="[]"]
    by (simp add: Let_def table_ok_def fsm_init_def)
  have 5: "fsm_init ''a'' [0::nat] 0 [] [(0, [])] = Inl (BadFsmException SymbolNotInMap)"
    using fsm_init_validates [where ini=0 and sts="[0::nat]" and fins="[]" and al="''a''" and m="[(0, [])]"]
    by (simp add: Let_def table_ok_def fsm_init_def)
  from 1 2 3 4 5 show ?thesis by simp
qed

lemma is_fsm_iff:
  "is_fsm M \<longleftrightarrow>
     distinct (states M) \<and> distinct (finals M) \<and> initial M \<in> set (states M) \<and>
     set (finals M) \<subseteq> set (states M) \<and> table_ok M"
proof -
  have eq: "\<lparr>alphabet = alphabet M, states = states M, initial = initial M,
             finals = finals M, map_d = map_d M\<rparr> = M"
    by simp
  show ?thesis
    unfolding is_fsm_def fsm_init_def Let_def table_ok_check
    by (cases M) (auto simp: distinct_remdups_id split: option.splits
        dest: remdups_id_iff_distinct [THEN iffD1])
qed

lemma fsm_init_Inr_iff:
  "fsm_init al sts ini fins m = Inr M \<longleftrightarrow>
     M = \<lparr>alphabet = al, states = remdups sts, initial = ini, finals = remdups fins, map_d = m\<rparr>
     \<and> is_fsm M"
  unfolding is_fsm_iff
  by (auto simp: fsm_init_def Let_def table_ok_check split: option.splits)

lemma lookup_Inr_iff:
  "lookup M s a = Inr t \<longleftrightarrow> (\<exists>row. map_of (map_d M) s = Some row \<and> map_of row a = Some t)"
  by (auto simp: lookup_def getitem_def split: option.splits)

lemma is_fsm_lookup:
  assumes "is_fsm M" "s \<in> set (states M)" "a \<in> set (alphabet M)"
  shows "\<exists>t\<in>set (states M). lookup M s a = Inr t"
  using assms unfolding is_fsm_iff table_ok_def lookup_Inr_iff by fastforce

section \<open>Acceptance\<close>

text \<open>
  The walk of the specification (section 4.1): from a state, the transition function is
  applied to the symbols of the sequence from left to right; \<open>walk_spec M q w q'\<close>
  says that the walk from \<open>q\<close> over \<open>w\<close> ends in \<open>q'\<close>.
\<close>

inductive walk_spec :: "('a, 'q) fsm \<Rightarrow> 'q \<Rightarrow> 'a list \<Rightarrow> 'q \<Rightarrow> bool" where
  walk_Nil: "walk_spec M q [] q"
| walk_Cons: "lookup M q a = Inr q' \<Longrightarrow> walk_spec M q' w q'' \<Longrightarrow> walk_spec M q (a # w) q''"

code_pred walk_spec .

lemma accepts_from_walk:
  assumes "is_fsm M"
  shows "q \<in> set (states M) \<Longrightarrow> set w \<subseteq> set (alphabet M) \<Longrightarrow>
     \<exists>q'\<in>set (states M). walk_spec M q w q' \<and> accepts_from M q w = Inr (q' \<in> set (finals M))"
proof (induction w arbitrary: q)
  case Nil
  then show ?case by (auto intro: walk_Nil)
next
  case (Cons a w)
  then obtain t where t: "t \<in> set (states M)" "lookup M q a = Inr t"
    using is_fsm_lookup [OF assms, of q a] by auto
  from Cons.IH [OF t(1)] Cons.prems obtain q' where
    "q' \<in> set (states M)" "walk_spec M t w q'" "accepts_from M t w = Inr (q' \<in> set (finals M))"
    by auto
  with t show ?case by (auto intro: walk_Cons)
qed

text \<open>
  C8. For an automaton the constructor returned, \<open>accepts\<close> on the empty sequence is
  whether the initial state is final; on any sequence over the alphabet it does not
  raise, and its answer is whether the state in which the walk from the initial state
  over the sequence, left to right, ends is final.
\<close>

theorem accepts_walks:
  assumes "is_fsm A"
  shows "accepts A [] = Inr (initial A \<in> set (finals A)) \<and>
    (\<forall>input. set input \<subseteq> set (alphabet A) \<longrightarrow>
       (\<exists>q\<in>set (states A). walk_spec A (initial A) input q \<and>
          accepts A input = Inr (q \<in> set (finals A))))"
proof -
  have "initial A \<in> set (states A)"
    using assms by (simp add: is_fsm_iff)
  then show ?thesis
    using accepts_from_walk [OF assms] by (simp add: accepts_def)
qed

theorem accepts_walks_witness:
  "is_fsm test_a \<and> accepts test_a [] = Inr False \<and>
   walk_spec test_a 0 ''a'' 1 \<and> accepts test_a ''a'' = Inr True \<and>
   walk_spec test_a 0 ''ab'' 2 \<and> accepts test_a ''ab'' = Inr False"
proof -
  have h: "is_fsm test_a" by code_simp
  have w: "walk_spec test_a 0 ''a'' 1" "walk_spec test_a 0 ''ab'' 2"
    by (auto intro!: walk_spec.intros simp: test_a_def lookup_def getitem_def)
  from accepts_walks [OF h] have e: "accepts test_a [] = Inr (initial test_a \<in> set (finals test_a))"
    by simp
  have a: "accepts test_a ''a'' = Inr True" "accepts test_a ''ab'' = Inr False"
    by code_simp+
  from h w e a show ?thesis by (simp add: test_a_def)
qed

section \<open>Alphabet mismatch\<close>

text \<open>
  C7. When the alphabets of the operands differ, each of the three binary operators
  raises the alphabet exception, whatever else the operands are: the comparison is the
  first thing the operator does, before \<open>_crawl\<close> is called, and no automaton is
  returned.
\<close>

theorem alphabet_mismatch:
  assumes "set (alphabet other) \<noteq> set (alphabet self)"
  shows "fsm_add str self other = Some (Inl AlphabetException) \<and>
         fsm_or str self other = Some (Inl AlphabetException) \<and>
         fsm_and str self other = Some (Inl AlphabetException)"
  using assms by (simp add: fsm_add_def fsm_or_def fsm_and_def)

definition test_a_only :: "(char, nat) fsm" where
  "test_a_only = \<lparr>alphabet = ''a'', states = [0, 1], initial = 0, finals = [0],
     map_d = [(0, [(CHR ''a'', 1)]), (1, [(CHR ''a'', 1)])]\<rparr>"

theorem alphabet_mismatch_witness:
  "set (alphabet test_a_only) \<noteq> set (alphabet test_a) \<and>
   fsm_add str_char test_a test_a_only = Some (Inl AlphabetException) \<and>
   fsm_or str_char test_a test_a_only = Some (Inl AlphabetException) \<and>
   fsm_and str_char test_a test_a_only = Some (Inl AlphabetException)"
proof -
  have h: "set (alphabet test_a_only) \<noteq> set (alphabet test_a)"
    by (simp add: test_a_only_def test_a_def)
  from alphabet_mismatch [OF h] h show ?thesis by simp
qed

section \<open>Merging preserves the automaton\<close>

text \<open>
  \<open>replace\<close> goes through every key of the map and every entry of every row, also
  those that are not states or symbols of the automaton, and looks each state up in
  \<open>lookups\<close>. \<open>closed_table\<close> says that the map mentions states only.
\<close>

definition closed_table :: "('a, 'q) fsm \<Rightarrow> bool" where
  "closed_table M \<longleftrightarrow>
     (\<forall>(s, row)\<in>set (map_d M). s \<in> set (states M) \<and> (\<forall>(a, t)\<in>set row. t \<in> set (states M)))"

text \<open>The target of a table entry that exists.\<close>

definition delta :: "('a, 'q) fsm \<Rightarrow> 'q \<Rightarrow> 'a \<Rightarrow> 'q" where
  "delta M s a = projr (lookup M s a)"

lemma is_fsm_delta:
  assumes "is_fsm M" "s \<in> set (states M)" "a \<in> set (alphabet M)"
  shows "lookup M s a = Inr (delta M s a)" "delta M s a \<in> set (states M)"
  using is_fsm_lookup [OF assms] by (auto simp: delta_def)

lemma set_update_subset: "set (AList.update k v al) \<subseteq> insert (k, v) (set al)"
  by (induction al) auto

lemma set_fold_update_subset:
  "set (fold (\<lambda>(k, v) d. AList.update k v d) ps d) \<subseteq> set ps \<union> set d"
proof (induction ps arbitrary: d)
  case Nil
  show ?case by simp
next
  case (Cons p ps)
  obtain k v where p: "p = (k, v)" by (cases p)
  show ?case
    using Cons [of "AList.update k v d"] set_update_subset [of k v d]
    by (auto simp: p)
qed

lemma set_dict_subset: "set (dict ps) \<subseteq> set ps"
  using set_fold_update_subset [of ps "[]"] by (simp add: dict_def)

lemma mapE_Inr: "(\<And>x. x \<in> set xs \<Longrightarrow> f x = Inr (g x)) \<Longrightarrow> mapE f xs = Inr (map g xs)"
  by (induction xs) auto

lemma map_of_rev_map_key:
  "map_of (rev (map (\<lambda>x. (f x, g x)) xs)) k = Some v \<Longrightarrow> \<exists>x\<in>set xs. f x = k \<and> g x = v"
  by (induction xs) (auto simp: map_add_def split: option.splits if_splits)

lemma map_of_rev_map_dom:
  "x \<in> set xs \<Longrightarrow> \<exists>v. map_of (rev (map (\<lambda>x. (f x, g x)) xs)) (f x) = Some v"
  by (induction xs) (auto simp: map_add_def split: option.splits)

lemma getitem_Inr_iff: "getitem d k = Inr v \<longleftrightarrow> map_of d k = Some v"
  by (simp add: getitem_def split: option.splits)

text \<open>The row that \<open>replace\<close> builds for the key \<open>s\<close> of the old map.\<close>

definition new_row :: "('q \<Rightarrow> 'q) \<Rightarrow> ('a, 'q) fsm \<Rightarrow> 'q \<Rightarrow> ('a \<times> 'q) list" where
  "new_row ren M s = dict (map (\<lambda>a. (a, ren (delta M s a))) (map fst (projr (getitem (map_d M) s))))"

lemma replace_row_ok:
  assumes "closed_table M" "s \<in> fst ` set (map_d M)"
  shows "replace_row (dict (map (\<lambda>s. (s, ren s)) (states M))) M s = Inr (ren s, new_row ren M s)"
proof -
  define L where "L = dict (map (\<lambda>s. (s, ren s)) (states M))"
  have L: "getitem L t = (if t \<in> set (states M) then Inr (ren t) else Inl KeyError)" for t
    by (simp add: L_def getitem_lookups)
  from assms(2) obtain row where row: "map_of (map_d M) s = Some row"
    by (metis domD dom_map_of_conv_image_fst)
  then have in_map: "(s, row) \<in> set (map_d M)" by (rule map_of_SomeD)
  with assms(1) have s: "s \<in> set (states M)" and tgt: "\<And>a t. (a, t) \<in> set row \<Longrightarrow> t \<in> set (states M)"
    by (auto simp: closed_table_def)
  have g: "getitem (map_d M) s = Inr row" using row by (simp add: getitem_def)
  have each: "bindE (lookup M s a) (\<lambda>t. bindE (getitem L t) (\<lambda>t'. Inr (a, t')))
                = Inr (a, ren (delta M s a))"
    if "a \<in> set (map fst row)" for a
  proof -
    from that obtain t where t: "map_of row a = Some t"
      by (metis domD dom_map_of_conv_image_fst set_map)
    then have "t \<in> set (states M)" using tgt map_of_SomeD by fastforce
    moreover have "lookup M s a = Inr t" using row t by (simp add: lookup_Inr_iff)
    ultimately show ?thesis by (simp add: L delta_def)
  qed
  have Ls: "getitem L s = Inr (ren s)" using s by (simp add: L)
  have m: "mapE (\<lambda>a. bindE (lookup M s a) (\<lambda>t. bindE (getitem L t) (\<lambda>t'. Inr (a, t'))))
             (map fst row) = Inr (map (\<lambda>a. (a, ren (delta M s a))) (map fst row))"
    by (rule mapE_Inr) (rule each)
  have "replace_row L M s = Inr (ren s, new_row ren M s)"
    unfolding replace_row_def new_row_def
    by (simp add: Ls g m)
  then show ?thesis by (simp add: L_def)
qed
lemma is_fsm_keys:
  assumes "is_fsm M" "s \<in> set (states M)"
  shows "s \<in> fst ` set (map_d M)"
proof -
  from assms obtain row where "map_of (map_d M) s = Some row"
    unfolding is_fsm_iff table_ok_def by blast
  then show ?thesis by (metis domI dom_map_of_conv_image_fst)
qed

lemma replace_eq:
  fixes M :: "('a, 'q) fsm" and this that :: 'q
  assumes "is_fsm M" "closed_table M"
  defines "ren \<equiv> \<lambda>s. if s = this then that else s"
  shows "replace M this that =
     fsm_init (alphabet M) (map ren (states M)) (ren (initial M)) (map ren (finals M))
       (dict (map (\<lambda>s. (ren s, new_row ren M s)) (map fst (map_d M))))"
proof -
  define L where "L = dict (map (\<lambda>s. (s, ren s)) (states M))"
  have L: "getitem L t = Inr (ren t)" if "t \<in> set (states M)" for t
    using that by (simp add: L_def getitem_lookups)
  have 1: "mapE (getitem L) (states M) = Inr (map ren (states M))"
    by (rule mapE_Inr) (rule L)
  have 2: "getitem L (initial M) = Inr (ren (initial M))"
    using assms(1) by (intro L) (simp add: is_fsm_iff)
  have 3: "mapE (getitem L) (finals M) = Inr (map ren (finals M))"
    using assms(1) by (intro mapE_Inr L) (auto simp: is_fsm_iff)
  have 4: "mapE (replace_row L M) (map fst (map_d M)) =
             Inr (map (\<lambda>s. (ren s, new_row ren M s)) (map fst (map_d M)))"
    unfolding L_def by (rule mapE_Inr) (simp add: replace_row_ok [OF assms(2)])
  have "replace M this that =
      bindE (mapE (getitem L) (states M)) (\<lambda>sts.
      bindE (getitem L (initial M)) (\<lambda>ini.
      bindE (mapE (getitem L) (finals M)) (\<lambda>fins.
      bindE (mapE (replace_row L M) (map fst (map_d M))) (\<lambda>rows.
        fsm_init (alphabet M) sts ini fins (dict rows)))))"
    by (simp add: replace_def Let_def L_def ren_def)
  then show ?thesis by (simp only: 1 2 3 4 bindE_simps)
qed

lemma new_row_lookup:
  assumes "is_fsm M" "s \<in> set (states M)" "a \<in> set (alphabet M)"
  shows "map_of (new_row ren M s) a = Some (ren (delta M s a))"
proof -
  from assms obtain row t where row: "map_of (map_d M) s = Some row" and t: "map_of row a = Some t"
    unfolding is_fsm_iff table_ok_def by blast
  then have "a \<in> fst ` set row" by (metis domI dom_map_of_conv_image_fst)
  moreover have "getitem (map_d M) s = Inr row" using row by (simp add: getitem_def)
  ultimately show ?thesis
    unfolding new_row_def by (simp only: sum.sel map_of_dict_graph set_map if_True)
qed

lemma new_row_closed:
  assumes "closed_table M" "s \<in> fst ` set (map_d M)" "(a, t) \<in> set (new_row ren M s)"
  shows "t \<in> ren ` set (states M)"
proof -
  from assms(2) obtain row where row: "map_of (map_d M) s = Some row"
    by (metis domD dom_map_of_conv_image_fst)
  then have g: "getitem (map_d M) s = Inr row" by (simp add: getitem_def)
  from assms(3) have "(a, t) \<in> set (map (\<lambda>a. (a, ren (delta M s a))) (map fst row))"
    using set_dict_subset unfolding new_row_def g by fastforce
  then obtain t0 where a: "(a, t0) \<in> set row" and t: "t = ren (delta M s a)"
    by auto
  then obtain t1 where t1: "map_of row a = Some t1"
    by (metis domD dom_map_of_conv_image_fst fst_conv image_eqI)
  then have "(a, t1) \<in> set row" by (rule map_of_SomeD)
  with assms(1) map_of_SomeD [OF row] have "t1 \<in> set (states M)"
    by (auto simp: closed_table_def)
  moreover have "delta M s a = t1"
    using row t1 by (simp add: delta_def lookup_def g getitem_def)
  ultimately show ?thesis using t by simp
qed

text \<open>What \<open>replace\<close> returns, for an automaton whose map mentions states only.\<close>

lemma replace_ok:
  fixes M :: "('a, 'q) fsm" and this that :: 'q
  assumes "is_fsm M" "closed_table M"
  defines "ren \<equiv> \<lambda>s. if s = this then that else s"
  shows "\<exists>N. replace M this that = Inr N \<and> is_fsm N \<and> closed_table N \<and>
     alphabet N = alphabet M \<and> set (states N) = ren ` set (states M) \<and>
     initial N = ren (initial M) \<and> set (finals N) = ren ` set (finals M) \<and>
     (\<forall>k\<in>set (states N). \<forall>a\<in>set (alphabet M).
         \<exists>s\<in>set (states M). ren s = k \<and> lookup N k a = Inr (ren (delta M s a)))"
proof -
  define rows where "rows = map (\<lambda>s. (ren s, new_row ren M s)) (map fst (map_d M))"
  define N where "N = \<lparr>alphabet = alphabet M, states = remdups (map ren (states M)),
     initial = ren (initial M), finals = remdups (map ren (finals M)), map_d = dict rows\<rparr>"
  have keys_states: "s \<in> set (states M)" if "s \<in> fst ` set (map_d M)" for s
    using that assms(2) by (auto simp: closed_table_def)
  have found: "\<exists>s\<in>fst ` set (map_d M). ren s = k \<and> row' = new_row ren M s"
    if "map_of (dict rows) k = Some row'" for k row'
    using that map_of_rev_map_key [of ren "new_row ren M" "map fst (map_d M)" k row']
    by (auto simp: map_of_dict rows_def)
  have ex: "\<exists>row'. map_of (dict rows) (ren s) = Some row'" if "s \<in> set (states M)" for s
    using map_of_rev_map_dom [of s "map fst (map_d M)" ren "new_row ren M"]
      is_fsm_keys [OF assms(1) that]
    by (simp add: map_of_dict rows_def)
  have trans: "\<exists>s\<in>set (states M). ren s = k \<and>
       (\<exists>row'. map_of (dict rows) k = Some row' \<and> map_of row' a = Some (ren (delta M s a)))"
    if k: "k \<in> ren ` set (states M)" and a: "a \<in> set (alphabet M)" for k a
  proof -
    from k ex obtain row' where row': "map_of (dict rows) k = Some row'" by auto
    from found [OF row'] obtain s where s: "s \<in> fst ` set (map_d M)" "ren s = k"
      "row' = new_row ren M s" by auto
    with keys_states have "s \<in> set (states M)" by simp
    with s row' new_row_lookup [OF assms(1) this a, of ren] show ?thesis by auto
  qed
  have tab: "table_ok N"
    unfolding table_ok_def
  proof
    fix k assume "k \<in> set (states N)"
    then have k: "k \<in> ren ` set (states M)" by (simp add: N_def)
    from k ex obtain row' where row': "map_of (dict rows) k = Some row'" by auto
    have "\<exists>t\<in>set (states N). map_of row' a = Some t" if "a \<in> set (alphabet N)" for a
    proof -
      from that have a: "a \<in> set (alphabet M)" by (simp add: N_def)
      from trans [OF k a] row' obtain s where "s \<in> set (states M)"
        "map_of row' a = Some (ren (delta M s a))" by auto
      moreover from this is_fsm_delta(2) [OF assms(1) _ a] have "ren (delta M s a) \<in> set (states N)"
        by (simp add: N_def)
      ultimately show ?thesis by blast
    qed
    with row' show "\<exists>row. map_of (map_d N) k = Some row \<and>
        (\<forall>a\<in>set (alphabet N). \<exists>t\<in>set (states N). map_of row a = Some t)"
      by (auto simp: N_def)
  qed
  have fsm: "is_fsm N"
    using assms(1) tab unfolding is_fsm_iff by (auto simp: N_def)
  have closed: "closed_table N"
    unfolding closed_table_def
  proof (clarify, intro conjI ballI)
    fix k row' assume "(k, row') \<in> set (map_d N)"
    then have "(k, row') \<in> set rows" using set_dict_subset by (fastforce simp: N_def)
    then obtain s where s: "s \<in> fst ` set (map_d M)" "k = ren s" "row' = new_row ren M s"
      by (auto simp: rows_def)
    then show "k \<in> set (states N)" using keys_states by (auto simp: N_def)
    fix p assume p: "p \<in> set row'"
    obtain a t where at: "p = (a, t)" by (cases p)
    with p s(3) have "(a, t) \<in> set (new_row ren M s)" by simp
    from new_row_closed [OF assms(2) s(1) this] have "t \<in> set (states N)"
      by (simp add: N_def)
    then show "case p of (a, t) \<Rightarrow> t \<in> set (states N)"
      by (simp add: at)
  qed
  have "replace M this that =
      fsm_init (alphabet M) (map ren (states M)) (ren (initial M)) (map ren (finals M)) (dict rows)"
    unfolding rows_def ren_def by (rule replace_eq [OF assms(1,2)])
  then have "replace M this that = Inr N"
    using fsm by (simp add: fsm_init_Inr_iff N_def)
  moreover have "\<forall>k\<in>set (states N). \<forall>a\<in>set (alphabet M).
         \<exists>s\<in>set (states M). ren s = k \<and> lookup N k a = Inr (ren (delta M s a))"
    using trans by (fastforce simp: N_def lookup_Inr_iff)
  ultimately show ?thesis using fsm closed by (auto simp: N_def)
qed

lemma equivalent_loop_eq:
  assumes "is_fsm M" "s1 \<in> set (states M)" "s2 \<in> set (states M)"
  shows "set symbols \<subseteq> set (alphabet M) \<Longrightarrow>
     equivalent_loop M s1 s2 symbols =
       Inr (\<forall>a\<in>set symbols. (if delta M s1 a = s2 then s1 else delta M s1 a) =
                              (if delta M s2 a = s2 then s1 else delta M s2 a))"
proof (induction symbols)
  case Nil
  show ?case by simp
next
  case (Cons a symbols)
  then have a: "a \<in> set (alphabet M)" by simp
  have 1: "lookup M s1 a = Inr (delta M s1 a)" and 2: "lookup M s2 a = Inr (delta M s2 a)"
    using is_fsm_delta(1) [OF assms(1) _ a] assms(2,3) by auto
  from Cons show ?case
    by (simp add: 1 2 Let_def)
qed

lemma equivalent_eq:
  assumes "is_fsm M" "s1 \<in> set (states M)" "s2 \<in> set (states M)"
  shows "equivalent M s1 s2 =
     Inr ((s1 \<in> set (finals M) \<longleftrightarrow> s2 \<in> set (finals M)) \<and>
          (\<forall>a\<in>set (alphabet M). (if delta M s1 a = s2 then s1 else delta M s1 a) =
                                 (if delta M s2 a = s2 then s1 else delta M s2 a)))"
  using equivalent_loop_eq [OF assms, of "alphabet M"]
  by (auto simp: equivalent_def)

lemma rename_swap:
  assumes "this \<noteq> that"
  shows "(if x = that then this else x) = (if y = that then this else y) \<longleftrightarrow>
         (if x = this then that else x) = (if y = this then that else y)"
  using assms by auto

text \<open>Merging two equivalent states does not change what is accepted.\<close>

lemma replace_accepts_from:
  fixes M :: "('a, 'q) fsm" and this that :: 'q
  assumes M: "is_fsm M" "closed_table M"
    and st: "this \<in> set (states M)" "that \<in> set (states M)" "that \<noteq> this"
    and eq: "equivalent M this that = Inr True"
    and N: "replace M this that = Inr N"
  defines "ren \<equiv> \<lambda>s. if s = this then that else s"
  shows "q \<in> set (states M) \<Longrightarrow> set w \<subseteq> set (alphabet M) \<Longrightarrow>
     accepts_from N (ren q) w = accepts_from M q w"
proof (induction w arbitrary: q)
  case Nil
  from replace_ok [OF M, of this that] N
  have fin: "set (finals N) = ren ` set (finals M)" by (auto simp: ren_def)
  from eq have same: "this \<in> set (finals M) \<longleftrightarrow> that \<in> set (finals M)"
    by (simp add: equivalent_eq [OF M(1) st(1,2)])
  have "ren q \<in> ren ` set (finals M) \<longleftrightarrow> q \<in> set (finals M)"
    using same st(3) unfolding ren_def image_iff by (metis (full_types))
  then show ?case by (simp add: fin)
next
  case (Cons a w)
  then have a: "a \<in> set (alphabet M)" and q: "q \<in> set (states M)" by simp_all
  from replace_ok [OF M, of this that] N
  have stN: "set (states N) = ren ` set (states M)"
    and tr: "\<And>k a. k \<in> set (states N) \<Longrightarrow> a \<in> set (alphabet M) \<Longrightarrow>
           \<exists>s\<in>set (states M). ren s = k \<and> lookup N k a = Inr (ren (delta M s a))"
    by (auto simp: ren_def)
  from eq have sim: "ren (delta M this a) = ren (delta M that a)"
    using a rename_swap [of this that "delta M this a" "delta M that a"] st(3)
    by (simp add: equivalent_eq [OF M(1) st(1,2)] ren_def)
  from tr [of "ren q" a] q a stN obtain s where s: "s \<in> set (states M)" "ren s = ren q"
    "lookup N (ren q) a = Inr (ren (delta M s a))" by auto
  have "ren (delta M s a) = ren (delta M q a)"
  proof (cases "s = q")
    case True
    then show ?thesis by simp
  next
    case False
    with s(2) have "(s = this \<and> q = that) \<or> (s = that \<and> q = this)"
      unfolding ren_def by (metis (full_types))
    with sim show ?thesis by auto
  qed
  with s have look: "lookup N (ren q) a = Inr (ren (delta M q a))" by simp
  have t: "delta M q a \<in> set (states M)" "lookup M q a = Inr (delta M q a)"
    using is_fsm_delta [OF M(1) q a] by auto
  from Cons.IH [OF t(1)] Cons.prems(2) show ?case
    by (simp add: look t(2))
qed

lemma replace_accepts:
  fixes M :: "('a, 'q) fsm"
  assumes "is_fsm M" "closed_table M" "this \<in> set (states M)" "that \<in> set (states M)"
    "that \<noteq> this" "equivalent M this that = Inr True" "replace M this that = Inr N"
    "set w \<subseteq> set (alphabet M)"
  shows "accepts N w = accepts M w"
proof -
  have "initial M \<in> set (states M)" using assms(1) by (simp add: is_fsm_iff)
  from replace_accepts_from [OF assms(1-7) this assms(8)]
    replace_ok [OF assms(1,2), of this that] assms(7)
  show ?thesis by (auto simp: accepts_def)
qed

lemma trymerge_that_total:
  assumes "is_fsm M" "closed_table M" "this \<in> set (states M)"
  shows "set ys \<subseteq> set (states M) \<Longrightarrow>
    (trymerge_that M this ys = Inr None \<and>
       (\<forall>that\<in>set ys. that \<noteq> this \<longrightarrow> equivalent M this that = Inr False)) \<or>
    (\<exists>N. trymerge_that M this ys = Inr (Some N))"
proof (induction ys)
  case Nil
  show ?case by simp
next
  case (Cons that ys)
  then have mem: "that \<in> set (states M)" by simp
  obtain b where b: "equivalent M this that = Inr b"
    using equivalent_eq [OF assms(1,3) mem] by blast
  obtain N where N: "replace M this that = Inr N"
    using replace_ok [OF assms(1,2), of this that] by blast
  from Cons show ?case
    by (cases b) (auto simp: b N)
qed

lemma trymerge_this_total:
  assumes "is_fsm M" "closed_table M"
  shows "set xs \<subseteq> set (states M) \<Longrightarrow>
    (trymerge_this M xs = Inr None \<and>
       (\<forall>this\<in>set xs. \<forall>that\<in>set (states M). that \<noteq> this \<longrightarrow>
           equivalent M this that = Inr False)) \<or>
    (\<exists>N. trymerge_this M xs = Inr (Some N))"
proof (induction xs)
  case Nil
  show ?case by simp
next
  case (Cons this xs)
  then have mem: "this \<in> set (states M)" by simp
  from trymerge_that_total [OF assms mem, of "states M"] Cons show ?case
    by auto
qed

lemma trymerge_total:
  assumes "is_fsm M" "closed_table M"
  shows "(trymerge M = Inr (False, M) \<and>
       (\<forall>this\<in>set (states M). \<forall>that\<in>set (states M). that \<noteq> this \<longrightarrow>
           equivalent M this that = Inr False)) \<or>
    (\<exists>N. trymerge M = Inr (True, N))"
  using trymerge_this_total [OF assms, of "states M"]
  by (auto simp: trymerge_def)

text \<open>What \<open>automerge\<close> returns, for an automaton whose map mentions states only.\<close>

lemma automerge_ok:
  fixes M :: "('a, 'q) fsm"
  shows "is_fsm M \<Longrightarrow> closed_table M \<Longrightarrow>
    \<exists>N. automerge M = Inr N \<and> is_fsm N \<and> closed_table N \<and> alphabet N = alphabet M \<and>
       length (states N) \<le> length (states M) \<and>
       (\<forall>s\<in>set (states N). \<forall>t\<in>set (states N). t \<noteq> s \<longrightarrow> equivalent N s t = Inr False) \<and>
       (\<forall>w. set w \<subseteq> set (alphabet M) \<longrightarrow> accepts N w = accepts M w)"
proof (induction M rule: automerge.induct)
  case (1 M)
  from trymerge_total [OF "1.prems"] show ?case
  proof (elim disjE conjE exE)
    assume "trymerge M = Inr (False, M)"
      and "\<forall>this\<in>set (states M). \<forall>that\<in>set (states M). that \<noteq> this \<longrightarrow>
           equivalent M this that = Inr False"
    with "1.prems" show ?thesis by auto
  next
    fix N assume tm: "trymerge M = Inr (True, N)"
    from trymerge_True [OF tm] obtain this that where
      tt: "this \<in> set (states M)" "that \<in> set (states M)" "that \<noteq> this"
        "equivalent M this that = Inr True" "replace M this that = Inr N"
      by blast
    from replace_ok [OF "1.prems", of this that] tt(5)
    have N: "is_fsm N" "closed_table N" "alphabet N = alphabet M" by auto
    have acc: "accepts N w = accepts M w" if "set w \<subseteq> set (alphabet M)" for w
      using replace_accepts [OF "1.prems" tt that] .
    from "1.IH" [OF tm refl _ N(1,2)] obtain N' where
      N': "automerge N = Inr N'" "is_fsm N'" "closed_table N'" "alphabet N' = alphabet N"
        "length (states N') \<le> length (states N)"
        "\<forall>s\<in>set (states N'). \<forall>t\<in>set (states N'). t \<noteq> s \<longrightarrow> equivalent N' s t = Inr False"
        "\<forall>w. set w \<subseteq> set (alphabet N) \<longrightarrow> accepts N' w = accepts N w"
      by auto
    have "automerge M = Inr N'" using tm N'(1) by simp
    moreover have "length (states N') \<le> length (states M)"
      using N'(5) trymerge_decreases [OF tm] by simp
    ultimately show ?thesis
      using N' N(3) acc by auto
  qed
qed

section \<open>automerge\<close>

text \<open>
  An automaton the constructor accepts, with a row in its map for 2, which is not a
  state: the states 0 and 1 are equivalent, and \<open>replace\<close> raises KeyError at
  \<open>lookups[2]\<close>.
\<close>

definition junk_map :: "(char, nat) fsm" where
  "junk_map = \<lparr>alphabet = ''a'', states = [0, 1], initial = 0, finals = [],
     map_d = [(0, [(CHR ''a'', 0)]), (1, [(CHR ''a'', 1)]), (2, [(CHR ''a'', 2)])]\<rparr>"

text \<open>
  C5, as stated, fails: \<open>automerge\<close> on the validated automaton \<open>junk_map\<close> raises
  KeyError and returns no automaton.
\<close>

theorem automerge_junk_counterexample:
  "is_fsm junk_map \<and> automerge junk_map = Inl KeyError"
  by code_simp

text \<open>
  C5, amended. For a validated automaton whose map has rows for states only, with
  targets that are states only: every merge that \<open>trymerge\<close> makes strictly reduces
  the number of states (which is why the loop of \<open>automerge\<close> ends), and \<open>automerge\<close>
  returns a validated automaton in which \<open>equivalent\<close> is false for every two distinct
  states and which has at most as many states as the original.
\<close>

theorem automerge_merges:
  fixes M :: "('a, 'q) fsm"
  assumes "is_fsm M" "closed_table M"
  shows "(\<forall>N. trymerge M = Inr (True, N) \<longrightarrow> length (states N) < length (states M)) \<and>
    (\<exists>N. automerge M = Inr N \<and> is_fsm N \<and>
       length (states N) \<le> length (states M) \<and>
       (\<forall>s\<in>set (states N). \<forall>t\<in>set (states N). t \<noteq> s \<longrightarrow> equivalent N s t = Inr False))"
  using automerge_ok [OF assms] trymerge_decreases [of M] by blast

theorem automerge_merges_witness:
  "is_fsm mergeMe2 \<and> closed_table mergeMe2 \<and>
   (\<exists>N. automerge mergeMe2 = Inr N \<and> length (states N) = 3 \<and> equivalent N 1 3 = Inr False)"
proof -
  have h: "is_fsm mergeMe2" "closed_table mergeMe2" by code_simp+
  from automerge_merges [OF h] obtain N where N: "automerge mergeMe2 = Inr N"
    "\<forall>s\<in>set (states N). \<forall>t\<in>set (states N). t \<noteq> s \<longrightarrow> equivalent N s t = Inr False"
    by blast
  have v: "automerge mergeMe2 = Inr \<lparr>alphabet = ''01'', states = [1, 3, 4], initial = 1,
      finals = [3],
      map_d = [(1, [(CHR ''0'', 3), (CHR ''1'', 3)]),
               (3, [(CHR ''0'', 3), (CHR ''1'', 4)]),
               (4, [(CHR ''0'', 4), (CHR ''1'', 4)])]\<rparr>"
    by code_simp
  with N(1) have s: "states N = [1, 3, 4]" by auto
  with N(2) have "equivalent N 1 3 = Inr False" by simp
  with h N(1) s show ?thesis by simp
qed

section \<open>What \<open>_crawl\<close> builds\<close>

lemma index_of_None: "index_of xs x = None \<longleftrightarrow> x \<notin> set xs"
  by (induction xs) auto

lemma index_of_Some: "index_of xs x = Some j \<Longrightarrow> j < length xs \<and> xs ! j = x"
  by (induction xs arbitrary: j) (auto split: if_splits)

lemma index_of_append: "x \<in> set xs \<Longrightarrow> index_of (xs @ ys) x = index_of xs x"
  by (induction xs) auto

lemma index_of_new: "x \<notin> set xs \<Longrightarrow> index_of (xs @ [x]) x = Some (length xs)"
  by (induction xs) auto

lemma index_of_nth: "distinct xs \<Longrightarrow> j < length xs \<Longrightarrow> index_of xs (xs ! j) = Some j"
proof (induction xs arbitrary: j)
  case Nil
  then show ?case by simp
next
  case (Cons x xs)
  then show ?case by (cases j) auto
qed

lemma index_of_mem: "x \<in> set xs \<Longrightarrow> \<exists>j. index_of xs x = Some j"
  using index_of_None [of xs x] by (cases "index_of xs x") auto

lemma distinct_update_keys: "distinct (map fst al) \<Longrightarrow> distinct (map fst (AList.update k v al))"
  by (rule distinct_update)

lemma keys_update: "fst ` set (AList.update k v al) = insert k (fst ` set al)"
  by (induction al) auto

text \<open>
  The inner loop, when \<open>getNext\<close> is the function \<open>nxt\<close> on a set \<open>U\<close> of superstates
  that it does not leave: the list of superstates is extended, and the row holds the
  position of each successor.
\<close>

lemma crawl_symbols_ok:
  fixes getNext :: "'s \<Rightarrow> 'a \<Rightarrow> error + 's"
  assumes closed: "\<And>a. a \<in> set syms \<Longrightarrow> getNext s a = Inr (nxt s a) \<and> nxt s a \<in> U"
  shows "set sts \<subseteq> U \<Longrightarrow> distinct sts \<Longrightarrow> distinct (map fst row) \<Longrightarrow>
    \<exists>new row'. crawl_symbols getNext s syms sts row = Inr (sts @ new, row') \<and>
       distinct (sts @ new) \<and> set (sts @ new) \<subseteq> U \<and> distinct (map fst row') \<and>
       fst ` set row' = fst ` set row \<union> set syms \<and>
       (\<forall>a\<in>set syms. map_of row' a = index_of (sts @ new) (nxt s a) \<and> nxt s a \<in> set (sts @ new)) \<and>
       (\<forall>a. a \<notin> set syms \<longrightarrow> map_of row' a = map_of row a)"
  using closed
proof (induction syms arbitrary: sts row)
  case Nil
  then show ?case by - (rule exI [of _ "[]"], rule exI [of _ row], simp)
next
  case (Cons a syms)
  have a: "getNext s a = Inr (nxt s a)" "nxt s a \<in> U"
    using Cons.prems(4) [of a] by auto
  have rest: "\<And>b. b \<in> set syms \<Longrightarrow> getNext s b = Inr (nxt s b) \<and> nxt s b \<in> U"
    using Cons.prems(4) by simp
  show ?case
  proof (cases "index_of sts (nxt s a)")
    case None
    let ?sts = "sts @ [nxt s a]" and ?row = "AList.update a (length sts) row"
    from None have new: "nxt s a \<notin> set sts" by (simp add: index_of_None)
    have "set ?sts \<subseteq> U" "distinct ?sts" "distinct (map fst ?row)"
      using Cons.prems a new by (auto simp: distinct_update)
    from Cons.IH [OF this rest] obtain new' row' where
      r: "crawl_symbols getNext s syms ?sts ?row = Inr (?sts @ new', row')"
        "distinct (?sts @ new')" "set (?sts @ new') \<subseteq> U" "distinct (map fst row')"
        "fst ` set row' = fst ` set ?row \<union> set syms"
        "\<forall>b\<in>set syms. map_of row' b = index_of (?sts @ new') (nxt s b) \<and> nxt s b \<in> set (?sts @ new')"
        "\<forall>b. b \<notin> set syms \<longrightarrow> map_of row' b = map_of ?row b"
      by blast
    have here: "map_of row' a = index_of (?sts @ new') (nxt s a)"
    proof (cases "a \<in> set syms")
      case True
      with r(6) show ?thesis by simp
    next
      case False
      with r(7) have "map_of row' a = Some (length sts)" by (simp add: update_conv')
      moreover have "index_of (?sts @ new') (nxt s a) = Some (length sts)"
        using index_of_append [of "nxt s a" ?sts new'] index_of_new [OF new] by simp
      ultimately show ?thesis by simp
    qed
    show ?thesis
      apply (rule exI [of _ "nxt s a # new'"], rule exI [of _ row'])
      using r here by (auto simp: a None keys_update update_conv')
  next
    case (Some j)
    let ?row = "AList.update a j row"
    from Some have old: "nxt s a \<in> set sts" using index_of_None [of sts "nxt s a"] by auto
    have "set sts \<subseteq> U" "distinct sts" "distinct (map fst ?row)"
      using Cons.prems by (auto simp: distinct_update)
    from Cons.IH [OF this rest] obtain new' row' where
      r: "crawl_symbols getNext s syms sts ?row = Inr (sts @ new', row')"
        "distinct (sts @ new')" "set (sts @ new') \<subseteq> U" "distinct (map fst row')"
        "fst ` set row' = fst ` set ?row \<union> set syms"
        "\<forall>b\<in>set syms. map_of row' b = index_of (sts @ new') (nxt s b) \<and> nxt s b \<in> set (sts @ new')"
        "\<forall>b. b \<notin> set syms \<longrightarrow> map_of row' b = map_of ?row b"
      by blast
    have here: "map_of row' a = index_of (sts @ new') (nxt s a)"
    proof (cases "a \<in> set syms")
      case True
      with r(6) show ?thesis by simp
    next
      case False
      with r(7) have "map_of row' a = Some j" by (simp add: update_conv')
      moreover have "index_of (sts @ new') (nxt s a) = Some j"
        using index_of_append [OF old, of new'] Some by simp
      ultimately show ?thesis by simp
    qed
    show ?thesis
      apply (rule exI [of _ new'], rule exI [of _ row'])
      using r here old by (auto simp: a Some keys_update update_conv')
  qed
qed

text \<open>
  The invariant of the outer loop at position \<open>i\<close>: the superstates met so far are
  distinct and in \<open>U\<close>, the final ones among the first \<open>i\<close> are recorded, and the rows
  of the first \<open>i\<close> hold the positions of their successors.
\<close>

definition crawl_inv ::
  "'s set \<Rightarrow> ('s \<Rightarrow> 'a \<Rightarrow> 's) \<Rightarrow> ('s \<Rightarrow> bool) \<Rightarrow> 'a list \<Rightarrow> nat \<Rightarrow> 's list \<Rightarrow> nat list
     \<Rightarrow> (nat \<times> ('a \<times> nat) list) list \<Rightarrow> bool"
where
  "crawl_inv U nxt isFinal syms i sts fins m \<longleftrightarrow>
     distinct sts \<and> set sts \<subseteq> U \<and> i \<le> length sts \<and>
     set fins = {j. j < i \<and> isFinal (sts ! j)} \<and>
     distinct (map fst m) \<and> fst ` set m = {..<i} \<and>
     (\<forall>j<i. \<exists>row. map_of m j = Some row \<and> distinct (map fst row) \<and>
        fst ` set row = set syms \<and>
        (\<forall>a\<in>set syms. map_of row a = index_of sts (nxt (sts ! j) a) \<and> nxt (sts ! j) a \<in> set sts))"

lemma crawl_inv_step:
  fixes getNext :: "'s \<Rightarrow> 'a \<Rightarrow> error + 's"
  assumes closed: "\<And>s a. s \<in> U \<Longrightarrow> a \<in> set syms \<Longrightarrow> getNext s a = Inr (nxt s a) \<and> nxt s a \<in> U"
    and inv: "crawl_inv U nxt isFinal syms i sts fins m"
    and i: "i < length sts"
  shows "\<exists>new row. crawl_symbols getNext (sts ! i) syms sts [] = Inr (sts @ new, row) \<and>
     crawl_inv U nxt isFinal syms (i + 1) (sts @ new)
       (if isFinal (sts ! i) then List.insert i fins else fins) (AList.update i row m)"
proof -
  from inv have d: "distinct sts" and sub: "set sts \<subseteq> U" and
    fins: "set fins = {j. j < i \<and> isFinal (sts ! j)}" and
    dm: "distinct (map fst m)" and keys: "fst ` set m = {..<i}" and
    rows: "\<And>j. j < i \<Longrightarrow> \<exists>row. map_of m j = Some row \<and> distinct (map fst row) \<and>
        fst ` set row = set syms \<and>
        (\<forall>a\<in>set syms. map_of row a = index_of sts (nxt (sts ! j) a) \<and> nxt (sts ! j) a \<in> set sts)"
    by (auto simp: crawl_inv_def)
  have si: "sts ! i \<in> U" using sub i by auto
  from crawl_symbols_ok [of syms getNext "sts ! i" nxt U sts "[]", OF closed [OF si] sub d]
  obtain new row where
    r: "crawl_symbols getNext (sts ! i) syms sts [] = Inr (sts @ new, row)"
      "distinct (sts @ new)" "set (sts @ new) \<subseteq> U" "distinct (map fst row)"
      "fst ` set row = set syms"
      "\<forall>a\<in>set syms. map_of row a = index_of (sts @ new) (nxt (sts ! i) a) \<and>
          nxt (sts ! i) a \<in> set (sts @ new)"
    by auto
  let ?fins = "if isFinal (sts ! i) then List.insert i fins else fins"
  have nth: "(sts @ new) ! j = sts ! j" if "j \<le> i" for j
    using that i by (simp add: nth_append)
  have f: "set ?fins = {j. j < i + 1 \<and> isFinal ((sts @ new) ! j)}"
    using fins nth by (auto simp: less_Suc_eq)
  have k: "fst ` set (AList.update i row m) = {..<i + 1}"
    using keys by (auto simp: keys_update)
  have old: "\<exists>row'. map_of (AList.update i row m) j = Some row' \<and> distinct (map fst row') \<and>
        fst ` set row' = set syms \<and>
        (\<forall>a\<in>set syms. map_of row' a = index_of (sts @ new) (nxt ((sts @ new) ! j) a) \<and>
           nxt ((sts @ new) ! j) a \<in> set (sts @ new))"
    if j: "j < i + 1" for j
  proof (cases "j = i")
    case True
    with r show ?thesis by (simp add: update_conv' nth)
  next
    case False
    with j have ji: "j < i" by simp
    from rows [OF ji] obtain row' where
      row': "map_of m j = Some row'" "distinct (map fst row')" "fst ` set row' = set syms"
        "\<forall>a\<in>set syms. map_of row' a = index_of sts (nxt (sts ! j) a) \<and> nxt (sts ! j) a \<in> set sts"
      by blast
    have "map_of row' a = index_of (sts @ new) (nxt ((sts @ new) ! j) a)" if "a \<in> set syms" for a
      using row'(4) that ji nth [of j] index_of_append [of "nxt (sts ! j) a" sts new] by auto
    with row' ji False nth [of j] show ?thesis
      by (auto simp: update_conv')
  qed
  have "crawl_inv U nxt isFinal syms (i + 1) (sts @ new) ?fins (AList.update i row m)"
    unfolding crawl_inv_def
    using r(2,3) i f k dm old by (simp add: distinct_update del: set_append)
  with r(1) show ?thesis by blast
qed

text \<open>The outer loop ends: the list of distinct superstates cannot outgrow \<open>U\<close>.\<close>

lemma crawl_loop_ok:
  fixes getNext :: "'s \<Rightarrow> 'a \<Rightarrow> error + 's"
  assumes fin: "finite U"
    and closed: "\<And>s a. s \<in> U \<Longrightarrow> a \<in> set syms \<Longrightarrow> getNext s a = Inr (nxt s a) \<and> nxt s a \<in> U"
  shows "crawl_inv U nxt isFinal syms i sts fins m \<Longrightarrow>
    \<exists>new fins' m'. crawl_loop isFinal getNext syms i sts fins m = Some (Inr (sts @ new, fins', m')) \<and>
       crawl_inv U nxt isFinal syms (length (sts @ new)) (sts @ new) fins' m'"
proof (induction "card U - i" arbitrary: i sts fins m rule: less_induct)
  case less
  note inv = less.prems
  show ?case
  proof (cases "i < length sts")
    case False
    with inv have "i = length sts" by (simp add: crawl_inv_def)
    with inv False show ?thesis
      by (subst crawl_loop.simps) (auto intro!: exI [of _ "[]"])
  next
    case True
    from crawl_inv_step [OF closed inv True] obtain new row where
      step: "crawl_symbols getNext (sts ! i) syms sts [] = Inr (sts @ new, row)"
        "crawl_inv U nxt isFinal syms (i + 1) (sts @ new)
           (if isFinal (sts ! i) then List.insert i fins else fins) (AList.update i row m)"
      by blast
    from inv have "distinct sts" "set sts \<subseteq> U" by (auto simp: crawl_inv_def)
    then have "length sts \<le> card U"
      using fin by (metis card_mono distinct_card)
    with True have "card U - (i + 1) < card U - i" by simp
    from less.hyps [OF this step(2)] obtain new' fins' m' where
      "crawl_loop isFinal getNext syms (i + 1) (sts @ new)
          (if isFinal (sts ! i) then List.insert i fins else fins) (AList.update i row m)
        = Some (Inr ((sts @ new) @ new', fins', m'))"
      "crawl_inv U nxt isFinal syms (length ((sts @ new) @ new')) ((sts @ new) @ new') fins' m'"
      by blast
    with True step(1) show ?thesis
      by (subst crawl_loop.simps) (auto intro!: exI [of _ "new @ new'"])
  qed
qed

lemma map_of_distinct_mem: "distinct (map fst al) \<Longrightarrow> (k, v) \<in> set al \<Longrightarrow> map_of al k = Some v"
  by simp

text \<open>The automaton that \<open>_crawl\<close> hands to \<open>automerge\<close>, from the final invariant.\<close>

lemma crawl_fsm_ok:
  fixes nxt :: "'s \<Rightarrow> 'a \<Rightarrow> 's"
  assumes inv: "crawl_inv U nxt isFinal syms (length sts) sts fins m"
    and ne: "sts \<noteq> []" and al: "set al = set syms"
  defines "M \<equiv> \<lparr>alphabet = al, states = [0..<length sts], initial = 0, finals = remdups fins,
                  map_d = m\<rparr>"
  shows "fsm_init al [0..<length sts] 0 fins m = Inr M" "is_fsm M" "closed_table M"
    "\<And>j w. j < length sts \<Longrightarrow> set w \<subseteq> set al \<Longrightarrow>
        accepts_from M j w = Inr (isFinal (foldl nxt (sts ! j) w))"
proof -
  from inv have d: "distinct sts" and
    fins: "set fins = {j. j < length sts \<and> isFinal (sts ! j)}" and
    dm: "distinct (map fst m)" and keys: "fst ` set m = {..<length sts}" and
    rows: "\<And>j. j < length sts \<Longrightarrow> \<exists>row. map_of m j = Some row \<and> distinct (map fst row) \<and>
        fst ` set row = set syms \<and>
        (\<forall>a\<in>set syms. map_of row a = index_of sts (nxt (sts ! j) a) \<and> nxt (sts ! j) a \<in> set sts)"
    by (auto simp: crawl_inv_def)
  have tr: "\<exists>k<length sts. lookup M j a = Inr k \<and> sts ! k = nxt (sts ! j) a"
    if "j < length sts" "a \<in> set al" for j a
  proof -
    from rows [OF that(1)] that(2) al obtain row where
      row: "map_of m j = Some row" "map_of row a = index_of sts (nxt (sts ! j) a)"
        "nxt (sts ! j) a \<in> set sts"
      by auto
    from index_of_mem [OF row(3)] obtain k where k: "index_of sts (nxt (sts ! j) a) = Some k"
      by blast
    with index_of_Some [OF k] row show ?thesis
      by (auto simp: lookup_Inr_iff M_def)
  qed
  have tab: "table_ok M"
    unfolding table_ok_def
  proof
    fix j assume "j \<in> set (states M)"
    then have j: "j < length sts" by (simp add: M_def)
    from rows [OF j] obtain row where row: "map_of m j = Some row" by blast
    have "\<exists>t\<in>set (states M). map_of row a = Some t" if "a \<in> set (alphabet M)" for a
      using tr [OF j, of a] that row by (auto simp: M_def lookup_Inr_iff)
    with row show "\<exists>row. map_of (map_d M) j = Some row \<and>
        (\<forall>a\<in>set (alphabet M). \<exists>t\<in>set (states M). map_of row a = Some t)"
      by (auto simp: M_def)
  qed
  have sel: "states M = [0..<length sts]" "initial M = 0" "finals M = remdups fins"
    by (simp_all add: M_def)
  have "set fins \<subseteq> {0..<length sts}"
    unfolding fins by auto
  then have "set (finals M) \<subseteq> set (states M)"
    unfolding sel by simp
  moreover have "initial M \<in> set (states M)"
    unfolding sel using ne by simp
  moreover have "distinct (states M)" "distinct (finals M)"
    unfolding sel by simp_all
  ultimately show fsm: "is_fsm M"
    unfolding is_fsm_iff using tab by blast
  have rec: "M = \<lparr>alphabet = al, states = remdups [0..<length sts], initial = 0,
      finals = remdups fins, map_d = m\<rparr>"
    by (simp add: M_def)
  show "fsm_init al [0..<length sts] 0 fins m = Inr M"
    unfolding fsm_init_Inr_iff using rec fsm by blast
  show "closed_table M"
    unfolding closed_table_def
  proof (clarify, intro conjI ballI)
    fix j row assume jr: "(j, row) \<in> set (map_d M)"
    then have jm: "(j, row) \<in> set m" by (simp add: M_def)
    then have "fst (j, row) \<in> fst ` set m" by (rule imageI)
    with keys have jl: "j < length sts" by simp
    then show j: "j \<in> set (states M)" by (simp add: sel)
    from jm dm have mj: "map_of m j = Some row" by simp
    from rows [OF jl] obtain row' where "map_of m j = Some row'" "distinct (map fst row')"
      "fst ` set row' = set syms"
      "\<forall>a\<in>set syms. map_of row' a = index_of sts (nxt (sts ! j) a)"
      by blast
    with mj have row: "distinct (map fst row)" "fst ` set row = set syms"
      "\<forall>a\<in>set syms. map_of row a = index_of sts (nxt (sts ! j) a)"
      by simp_all
    fix p assume p: "p \<in> set row"
    obtain a k where ak: "p = (a, k)" by (cases p)
    with p row(1) have "map_of row a = Some k" by simp
    moreover have "fst p \<in> fst ` set row" using p by (rule imageI)
    then have "a \<in> set syms" using ak row(2) by simp
    ultimately have "index_of sts (nxt (sts ! j) a) = Some k" using row(3) by simp
    from index_of_Some [OF this] show "case p of (a, t) \<Rightarrow> t \<in> set (states M)"
      by (simp add: ak sel)
  qed
  show "accepts_from M j w = Inr (isFinal (foldl nxt (sts ! j) w))"
    if "j < length sts" "set w \<subseteq> set al" for j w
    using that
  proof (induction w arbitrary: j)
    case Nil
    then show ?case using fins by (simp add: M_def)
  next
    case (Cons a w)
    from tr [of j a] Cons.prems obtain k where
      k: "k < length sts" "lookup M j a = Inr k" "sts ! k = nxt (sts ! j) a"
      by auto
    from Cons.IH [OF k(1)] Cons.prems(2) k show ?case by simp
  qed
qed

text \<open>
  \<open>_crawl\<close>, when \<open>getNext\<close> is the function \<open>nxt\<close> on a finite set \<open>U\<close> of superstates
  that holds the initial superstate and is not left: it returns a validated automaton
  that accepts a sequence over the alphabet when the superstate reached is final.
\<close>

lemma crawl_ok:
  fixes getNext :: "'s \<Rightarrow> 'a \<Rightarrow> error + 's"
  assumes fin: "finite U" and ini: "ini \<in> U"
    and closed: "\<And>s a. s \<in> U \<Longrightarrow> a \<in> set al \<Longrightarrow> getNext s a = Inr (nxt s a) \<and> nxt s a \<in> U"
  shows "\<exists>M. crawl str al ini isFinal getNext = Some (Inr M) \<and> is_fsm M \<and> closed_table M \<and>
     alphabet M = al \<and>
     (\<forall>w. set w \<subseteq> set al \<longrightarrow> accepts M w = Inr (isFinal (foldl nxt ini w)))"
proof -
  let ?syms = "sort_key str al"
  have syms: "set al = set ?syms" by simp
  have closed': "\<And>s a. s \<in> U \<Longrightarrow> a \<in> set ?syms \<Longrightarrow> getNext s a = Inr (nxt s a) \<and> nxt s a \<in> U"
    using closed by simp
  have "crawl_inv U nxt isFinal ?syms 0 [ini] [] []"
    using ini by (simp add: crawl_inv_def)
  from crawl_loop_ok [OF fin closed' this] obtain new fins m where
    loop: "crawl_loop isFinal getNext ?syms 0 [ini] [] [] = Some (Inr ([ini] @ new, fins, m))"
    and inv: "crawl_inv U nxt isFinal ?syms (length ([ini] @ new)) ([ini] @ new) fins m"
    by blast
  let ?sts = "[ini] @ new"
  define M0 where "M0 = \<lparr>alphabet = al, states = [0..<length ?sts], initial = 0,
      finals = remdups fins, map_d = m\<rparr>"
  have ne: "?sts \<noteq> []" by simp
  note M0 = crawl_fsm_ok [OF inv ne syms, folded M0_def]
  from automerge_ok [OF M0(2,3)] obtain M where
    M: "automerge M0 = Inr M" "is_fsm M" "closed_table M" "alphabet M = alphabet M0"
      "\<forall>w. set w \<subseteq> set (alphabet M0) \<longrightarrow> accepts M w = accepts M0 w"
    by blast
  have "crawl str al ini isFinal getNext = Some (Inr M)"
    using loop M0(1) M(1) by (simp add: crawl_def)
  moreover have "accepts M w = Inr (isFinal (foldl nxt ini w))" if "set w \<subseteq> set al" for w
    using M(5) M0(4) [of 0 w] that by (simp add: accepts_def M0_def)
  ultimately show ?thesis using M(2,3,4) by (auto simp: M0_def)
qed

section \<open>Alternation and intersection\<close>

lemma accepts_from_foldl:
  assumes "is_fsm M"
  shows "q \<in> set (states M) \<Longrightarrow> set w \<subseteq> set (alphabet M) \<Longrightarrow>
     accepts_from M q w = Inr (foldl (delta M) q w \<in> set (finals M)) \<and>
     foldl (delta M) q w \<in> set (states M)"
proof (induction w arbitrary: q)
  case Nil
  then show ?case by simp
next
  case (Cons a w)
  then have a: "a \<in> set (alphabet M)" by simp
  note d = is_fsm_delta [OF assms Cons.prems(1) a]
  from Cons.IH [OF d(2)] Cons.prems(2) show ?case by (simp add: d(1))
qed

lemma accepts_foldl:
  assumes "is_fsm M" "set w \<subseteq> set (alphabet M)"
  shows "accepts M w = Inr (foldl (delta M) (initial M) w \<in> set (finals M))"
    "foldl (delta M) (initial M) w \<in> set (states M)"
proof -
  have "initial M \<in> set (states M)" using assms(1) by (simp add: is_fsm_iff)
  from accepts_from_foldl [OF assms(1) this assms(2)]
  show "accepts M w = Inr (foldl (delta M) (initial M) w \<in> set (finals M))"
    "foldl (delta M) (initial M) w \<in> set (states M)"
    by (simp_all add: accepts_def)
qed

lemma foldl_pair:
  "foldl (\<lambda>p a. (f (fst p) a, g (snd p) a)) (s, t) w = (foldl f s w, foldl g t w)"
  by (induction w arbitrary: s t) auto

lemma pair_crawl_ok:
  fixes A :: "('a, 'p) fsm" and B :: "('a, 'q) fsm"
  assumes A: "is_fsm A" and B: "is_fsm B" and al: "set (alphabet B) = set (alphabet A)"
  shows "\<exists>M. crawl str (alphabet A) (initial A, initial B) isFinal (pair_getNext A B) = Some (Inr M) \<and>
     is_fsm M \<and> closed_table M \<and> alphabet M = alphabet A \<and>
     (\<forall>w. set w \<subseteq> set (alphabet A) \<longrightarrow>
        accepts M w = Inr (isFinal (foldl (delta A) (initial A) w, foldl (delta B) (initial B) w)))"
proof -
  let ?U = "set (states A) \<times> set (states B)"
  let ?nxt = "\<lambda>p a. (delta A (fst p) a, delta B (snd p) a)"
  have fin: "finite ?U" by simp
  have ini: "(initial A, initial B) \<in> ?U"
    using A B by (simp add: is_fsm_iff)
  have closed: "pair_getNext A B p a = Inr (?nxt p a) \<and> ?nxt p a \<in> ?U"
    if "p \<in> ?U" "a \<in> set (alphabet A)" for p a
  proof -
    from that have s: "fst p \<in> set (states A)" and t: "snd p \<in> set (states B)"
      and b: "a \<in> set (alphabet B)"
      using al by auto
    from is_fsm_delta [OF A s that(2)] is_fsm_delta [OF B t b]
    show ?thesis by (simp add: pair_getNext_def)
  qed
  from crawl_ok [of ?U "(initial A, initial B)" "alphabet A" "pair_getNext A B" ?nxt str isFinal,
      OF fin ini closed]
  show ?thesis by (simp add: foldl_pair)
qed

lemma fsm_and_ok:
  fixes A :: "('a, 'p) fsm" and B :: "('a, 'q) fsm"
  assumes "is_fsm A" "is_fsm B" "set (alphabet B) = set (alphabet A)"
  shows "\<exists>M. fsm_and str A B = Some (Inr M) \<and> is_fsm M \<and> closed_table M \<and>
     alphabet M = alphabet A \<and>
     (\<forall>w. set w \<subseteq> set (alphabet A) \<longrightarrow>
        accepts M w = Inr (accepts A w = Inr True \<and> accepts B w = Inr True))"
proof -
  from pair_crawl_ok [OF assms, of str "and_isFinal A B"] obtain M where
    M: "crawl str (alphabet A) (initial A, initial B) (and_isFinal A B) (pair_getNext A B)
          = Some (Inr M)"
      "is_fsm M" "closed_table M" "alphabet M = alphabet A"
      "\<forall>w. set w \<subseteq> set (alphabet A) \<longrightarrow>
        accepts M w =
          Inr (and_isFinal A B (foldl (delta A) (initial A) w, foldl (delta B) (initial B) w))"
    by blast
  have "accepts M w = Inr (accepts A w = Inr True \<and> accepts B w = Inr True)"
    if w: "set w \<subseteq> set (alphabet A)" for w
  proof -
    from w assms(3) have w': "set w \<subseteq> set (alphabet B)" by simp
    show ?thesis
      using M(5) w
      by (simp add: and_isFinal_def accepts_foldl(1) [OF assms(1) w]
          accepts_foldl(1) [OF assms(2) w'])
  qed
  with M(2,3,4) show ?thesis
    using M(1) assms(3) by (auto simp: fsm_and_def)
qed

lemma fsm_or_ok:
  fixes A :: "('a, 'p) fsm" and B :: "('a, 'q) fsm"
  assumes "is_fsm A" "is_fsm B" "set (alphabet B) = set (alphabet A)"
  shows "\<exists>M. fsm_or str A B = Some (Inr M) \<and> is_fsm M \<and> closed_table M \<and>
     alphabet M = alphabet A \<and>
     (\<forall>w. set w \<subseteq> set (alphabet A) \<longrightarrow>
        accepts M w = Inr (accepts A w = Inr True \<or> accepts B w = Inr True))"
proof -
  from pair_crawl_ok [OF assms, of str "or_isFinal A B"] obtain M where
    M: "crawl str (alphabet A) (initial A, initial B) (or_isFinal A B) (pair_getNext A B)
          = Some (Inr M)"
      "is_fsm M" "closed_table M" "alphabet M = alphabet A"
      "\<forall>w. set w \<subseteq> set (alphabet A) \<longrightarrow>
        accepts M w =
          Inr (or_isFinal A B (foldl (delta A) (initial A) w, foldl (delta B) (initial B) w))"
    by blast
  have "accepts M w = Inr (accepts A w = Inr True \<or> accepts B w = Inr True)"
    if w: "set w \<subseteq> set (alphabet A)" for w
  proof -
    from w assms(3) have w': "set w \<subseteq> set (alphabet B)" by simp
    show ?thesis
      using M(5) w
      by (simp add: or_isFinal_def accepts_foldl(1) [OF assms(1) w]
          accepts_foldl(1) [OF assms(2) w'])
  qed
  with M(2,3,4) show ?thesis
    using M(1) assms(3) by (auto simp: fsm_or_def)
qed

text \<open>
  C2. For automata \<open>A\<close> and \<open>B\<close> with the same alphabet, \<open>A & B\<close> and \<open>A | B\<close> are
  returned, and on a sequence over the alphabet \<open>A & B\<close> accepts exactly when both
  \<open>A\<close> and \<open>B\<close> accept, \<open>A | B\<close> exactly when at least one of them accepts.
\<close>

theorem and_or_set_semantics:
  fixes A :: "('a, 'p) fsm" and B :: "('a, 'q) fsm"
  assumes "is_fsm A" "is_fsm B" "set (alphabet B) = set (alphabet A)"
    "set s \<subseteq> set (alphabet A)"
  shows "(\<exists>M. fsm_and str A B = Some (Inr M) \<and>
            (accepts M s = Inr True \<longleftrightarrow> accepts A s = Inr True \<and> accepts B s = Inr True)) \<and>
         (\<exists>M. fsm_or str A B = Some (Inr M) \<and>
            (accepts M s = Inr True \<longleftrightarrow> accepts A s = Inr True \<or> accepts B s = Inr True))"
  using fsm_and_ok [OF assms(1-3), of str] fsm_or_ok [OF assms(1-3), of str] assms(4)
  by fastforce

theorem and_or_set_semantics_witness:
  "is_fsm test_a \<and> is_fsm test_b \<and>
   (\<exists>M. fsm_and str_char test_a test_b = Some (Inr M) \<and> accepts M ''a'' \<noteq> Inr True) \<and>
   (\<exists>M. fsm_or str_char test_a test_b = Some (Inr M) \<and> accepts M ''a'' = Inr True)"
proof -
  have h: "is_fsm test_a" "is_fsm test_b" by code_simp+
  have al: "set (alphabet test_b) = set (alphabet test_a)" "set ''a'' \<subseteq> set (alphabet test_a)"
    by (simp_all add: test_a_def test_b_def)
  have acc: "accepts test_a ''a'' = Inr True" "accepts test_b ''a'' = Inr False"
    by code_simp+
  from and_or_set_semantics [OF h al, of str_char] h acc show ?thesis
    by auto
qed

section \<open>Concatenation\<close>

lemma collect_Inr: "(\<And>x. x \<in> S \<Longrightarrow> f x = Inr (g x)) \<Longrightarrow> collect f S = Inr (\<Union>x\<in>S. g x)"
  by (simp add: collect_def)

text \<open>What one tagged state contributes to the next superstate of \<open>__add__\<close>.\<close>

definition add_step :: "('a, 'p) fsm \<Rightarrow> ('a, 'q) fsm \<Rightarrow> 'a \<Rightarrow> 'p + 'q \<Rightarrow> ('p + 'q) set" where
  "add_step A B a x =
     (case x of
        Inl s \<Rightarrow> (if delta A s a \<in> set (finals A) then {Inl (delta A s a), Inr (initial B)}
                  else {Inl (delta A s a)})
      | Inr t \<Rightarrow> {Inr (delta B t a)})"

lemma add_next_step:
  assumes "is_fsm A" "is_fsm B" "set (alphabet B) = set (alphabet A)" "a \<in> set (alphabet A)"
    "x \<in> Inl ` set (states A) \<union> Inr ` set (states B)"
  shows "add_next A B a x = Inr (add_step A B a x)"
    "add_step A B a x \<subseteq> Inl ` set (states A) \<union> Inr ` set (states B)"
proof -
  have iB: "initial B \<in> set (states B)" using assms(2) by (simp add: is_fsm_iff)
  show "add_next A B a x = Inr (add_step A B a x)"
  proof (cases x)
    case (Inl s)
    with assms(5) have "s \<in> set (states A)" by auto
    from is_fsm_delta(1) [OF assms(1) this assms(4)] Inl show ?thesis
      by (simp add: add_next_def add_step_def)
  next
    case (Inr t)
    with assms(5) have "t \<in> set (states B)" by auto
    moreover have "a \<in> set (alphabet B)" using assms(3,4) by simp
    ultimately show ?thesis
      using is_fsm_delta(1) [OF assms(2), of t a] Inr
      by (simp add: add_next_def add_step_def)
  qed
  show "add_step A B a x \<subseteq> Inl ` set (states A) \<union> Inr ` set (states B)"
  proof (cases x)
    case (Inl s)
    with assms(5) have "s \<in> set (states A)" by auto
    from is_fsm_delta(2) [OF assms(1) this assms(4)] Inl iB show ?thesis
      by (auto simp: add_step_def)
  next
    case (Inr t)
    with assms(5) have "t \<in> set (states B)" by auto
    moreover have "a \<in> set (alphabet B)" using assms(3,4) by simp
    ultimately show ?thesis
      using is_fsm_delta(2) [OF assms(2), of t a] Inr
      by (auto simp: add_step_def)
  qed
qed

lemma Inl_in_add_step: "Inl s \<in> add_step A B a x \<longleftrightarrow> (\<exists>s'. x = Inl s' \<and> s = delta A s' a)"
  by (cases x) (auto simp: add_step_def)

lemma Inr_in_add_step:
  "Inr t \<in> add_step A B a x \<longleftrightarrow>
     (\<exists>s'. x = Inl s' \<and> delta A s' a \<in> set (finals A) \<and> t = initial B) \<or>
     (\<exists>t'. x = Inr t' \<and> t = delta B t' a)"
  by (cases x) (auto simp: add_step_def)

text \<open>
  The superstate of \<open>__add__\<close> after a sequence \<open>w\<close>: the state of \<open>A\<close> after \<open>w\<close>,
  and the states of \<open>B\<close> after the rest of \<open>w\<close>, for every prefix of \<open>w\<close> that \<open>A\<close>
  accepts.
\<close>

lemma add_superstate:
  fixes A :: "('a, 'p) fsm" and B :: "('a, 'q) fsm"
  defines "S0 \<equiv> (if initial A \<in> set (finals A) then {Inl (initial A), Inr (initial B)}
                  else {Inl (initial A)})"
  defines "R \<equiv> \<lambda>w. foldl (\<lambda>S a. \<Union>x\<in>S. add_step A B a x) S0 w"
  shows "(Inl s \<in> R w \<longleftrightarrow> s = foldl (delta A) (initial A) w) \<and>
         (Inr t \<in> R w \<longleftrightarrow> (\<exists>u v. w = u @ v \<and> foldl (delta A) (initial A) u \<in> set (finals A) \<and>
                                t = foldl (delta B) (initial B) v))"
proof (induction w arbitrary: s t rule: rev_induct)
  case Nil
  show ?case by (auto simp: R_def S0_def)
next
  case (snoc a w)
  have step: "R (w @ [a]) = (\<Union>x\<in>R w. add_step A B a x)"
    by (simp add: R_def)
  from snoc have ihl: "\<And>s. Inl s \<in> R w \<longleftrightarrow> s = foldl (delta A) (initial A) w"
    and ihr: "\<And>t. Inr t \<in> R w \<longleftrightarrow>
      (\<exists>u v. w = u @ v \<and> foldl (delta A) (initial A) u \<in> set (finals A) \<and>
             t = foldl (delta B) (initial B) v)"
    by blast+
  have l: "Inl s \<in> R (w @ [a]) \<longleftrightarrow> s = foldl (delta A) (initial A) (w @ [a])"
  proof -
    have "Inl s \<in> R (w @ [a]) \<longleftrightarrow> (\<exists>s'. Inl s' \<in> R w \<and> s = delta A s' a)"
      unfolding step by (auto simp: Inl_in_add_step)
    then show ?thesis by (simp add: ihl)
  qed
  have r: "Inr t \<in> R (w @ [a]) \<longleftrightarrow>
      (\<exists>u v. w @ [a] = u @ v \<and> foldl (delta A) (initial A) u \<in> set (finals A) \<and>
                                t = foldl (delta B) (initial B) v)" (is "?L \<longleftrightarrow> ?R")
  proof -
    have "?L \<longleftrightarrow> (\<exists>s'. Inl s' \<in> R w \<and> delta A s' a \<in> set (finals A) \<and> t = initial B) \<or>
                  (\<exists>t'. Inr t' \<in> R w \<and> t = delta B t' a)"
      unfolding step by (auto simp: Inr_in_add_step)
    also have "\<dots> \<longleftrightarrow> (foldl (delta A) (initial A) (w @ [a]) \<in> set (finals A) \<and> t = initial B) \<or>
        (\<exists>u v. w = u @ v \<and> foldl (delta A) (initial A) u \<in> set (finals A) \<and>
               t = foldl (delta B) (initial B) (v @ [a]))"
      by (simp only: ihl ihr foldl_append foldl.simps) blast
    also have "\<dots> \<longleftrightarrow> ?R"
    proof
      assume "(foldl (delta A) (initial A) (w @ [a]) \<in> set (finals A) \<and> t = initial B) \<or>
        (\<exists>u v. w = u @ v \<and> foldl (delta A) (initial A) u \<in> set (finals A) \<and>
               t = foldl (delta B) (initial B) (v @ [a]))"
      then show ?R
      proof
        assume "foldl (delta A) (initial A) (w @ [a]) \<in> set (finals A) \<and> t = initial B"
        then show ?R by (intro exI [of _ "w @ [a]"] exI [of _ "[]"]) simp
      next
        assume "\<exists>u v. w = u @ v \<and> foldl (delta A) (initial A) u \<in> set (finals A) \<and>
               t = foldl (delta B) (initial B) (v @ [a])"
        then obtain u v where "w = u @ v" "foldl (delta A) (initial A) u \<in> set (finals A)"
          "t = foldl (delta B) (initial B) (v @ [a])" by blast
        then show ?R by (intro exI [of _ u] exI [of _ "v @ [a]"]) simp
      qed
    next
      assume ?R
      then obtain u v where uv: "w @ [a] = u @ v" "foldl (delta A) (initial A) u \<in> set (finals A)"
        "t = foldl (delta B) (initial B) v" by blast
      show "(foldl (delta A) (initial A) (w @ [a]) \<in> set (finals A) \<and> t = initial B) \<or>
        (\<exists>u v. w = u @ v \<and> foldl (delta A) (initial A) u \<in> set (finals A) \<and>
               t = foldl (delta B) (initial B) (v @ [a]))"
      proof (cases v rule: rev_cases)
        case Nil
        with uv show ?thesis by simp
      next
        case (snoc v' b)
        with uv(1) have "w = u @ v'" "b = a" by simp_all
        with uv snoc show ?thesis by blast
      qed
    qed
    finally show ?thesis .
  qed
  from l r show ?case by simp
qed

lemma add_isFinal_iff:
  "add_isFinal A B S \<longleftrightarrow>
     (\<exists>s. Inl s \<in> S \<and> s \<in> set (finals A) \<and> initial B \<in> set (finals B)) \<or>
     (\<exists>t. Inr t \<in> S \<and> t \<in> set (finals B))"
proof
  assume "add_isFinal A B S"
  then obtain x where x: "x \<in> S"
    "case x of Inl s \<Rightarrow> s \<in> set (finals A) \<and> initial B \<in> set (finals B)
             | Inr t \<Rightarrow> t \<in> set (finals B)"
    by (auto simp: add_isFinal_def)
  then show "(\<exists>s. Inl s \<in> S \<and> s \<in> set (finals A) \<and> initial B \<in> set (finals B)) \<or>
     (\<exists>t. Inr t \<in> S \<and> t \<in> set (finals B))"
    by (cases x) auto
next
  assume "(\<exists>s. Inl s \<in> S \<and> s \<in> set (finals A) \<and> initial B \<in> set (finals B)) \<or>
     (\<exists>t. Inr t \<in> S \<and> t \<in> set (finals B))"
  then show "add_isFinal A B S"
    unfolding add_isFinal_def by (auto intro: bexI [of _ "Inl _"] bexI [of _ "Inr _"])
qed

text \<open>
  \<open>A + B\<close> is returned, and accepts the sequences that split into a sequence \<open>A\<close>
  accepts followed by one \<open>B\<close> accepts.
\<close>

lemma fsm_add_ok:
  fixes A :: "('a, 'p) fsm" and B :: "('a, 'q) fsm"
  assumes A: "is_fsm A" and B: "is_fsm B" and al: "set (alphabet B) = set (alphabet A)"
  shows "\<exists>M. fsm_add str A B = Some (Inr M) \<and> is_fsm M \<and> closed_table M \<and>
     alphabet M = alphabet A \<and>
     (\<forall>w. set w \<subseteq> set (alphabet A) \<longrightarrow>
        accepts M w = Inr (\<exists>u v. w = u @ v \<and> accepts A u = Inr True \<and> accepts B v = Inr True))"
proof -
  let ?V = "Inl ` set (states A) \<union> Inr ` set (states B)"
  let ?U = "Pow ?V"
  let ?nxt = "\<lambda>S a. \<Union>x\<in>S. add_step A B a x"
  define S0 where "S0 = (if initial A \<in> set (finals A) then {Inl (initial A), Inr (initial B)}
                  else {Inl (initial A)})"
  have fin: "finite ?U" by simp
  have ini: "S0 \<in> ?U"
    using A B by (auto simp: is_fsm_iff S0_def)
  have closed: "add_getNext A B S a = Inr (?nxt S a) \<and> ?nxt S a \<in> ?U"
    if "S \<in> ?U" "a \<in> set (alphabet A)" for S a
  proof -
    have mem: "x \<in> ?V" if "x \<in> S" for x using that \<open>S \<in> ?U\<close> by auto
    have "add_getNext A B S a = Inr (?nxt S a)"
      unfolding add_getNext_def
      by (rule collect_Inr) (rule add_next_step(1) [OF A B al that(2) mem])
    moreover have "?nxt S a \<subseteq> ?V"
      using add_next_step(2) [OF A B al that(2) mem] by blast
    ultimately show ?thesis by simp
  qed
  from crawl_ok [of ?U S0 "alphabet A" "add_getNext A B" ?nxt str "add_isFinal A B",
      OF fin ini closed]
  obtain M where M: "crawl str (alphabet A) S0 (add_isFinal A B) (add_getNext A B) = Some (Inr M)"
    "is_fsm M" "closed_table M" "alphabet M = alphabet A"
    "\<forall>w. set w \<subseteq> set (alphabet A) \<longrightarrow> accepts M w = Inr (add_isFinal A B (foldl ?nxt S0 w))"
    by blast
  have res: "fsm_add str A B = Some (Inr M)"
    using M(1) al by (simp add: fsm_add_def S0_def Let_def)
  have sem: "add_isFinal A B (foldl ?nxt S0 w) \<longleftrightarrow>
      (\<exists>u v. w = u @ v \<and> accepts A u = Inr True \<and> accepts B v = Inr True)"
    if w: "set w \<subseteq> set (alphabet A)" for w
  proof -
    have supl: "\<And>s. Inl s \<in> foldl ?nxt S0 w \<longleftrightarrow> s = foldl (delta A) (initial A) w"
      and supr: "\<And>t. Inr t \<in> foldl ?nxt S0 w \<longleftrightarrow>
        (\<exists>u v. w = u @ v \<and> foldl (delta A) (initial A) u \<in> set (finals A) \<and>
               t = foldl (delta B) (initial B) v)"
      using add_superstate [where A=A and B=B and w=w] unfolding S0_def by blast+
    have run: "accepts A u = Inr True \<longleftrightarrow> foldl (delta A) (initial A) u \<in> set (finals A)"
       "accepts B v = Inr True \<longleftrightarrow> foldl (delta B) (initial B) v \<in> set (finals B)"
      if "w = u @ v" for u v
      using that w al accepts_foldl(1) [OF A, of u] accepts_foldl(1) [OF B, of v] by auto
    have "add_isFinal A B (foldl ?nxt S0 w) \<longleftrightarrow>
        (foldl (delta A) (initial A) w \<in> set (finals A) \<and> initial B \<in> set (finals B)) \<or>
        (\<exists>u v. w = u @ v \<and> foldl (delta A) (initial A) u \<in> set (finals A) \<and>
            foldl (delta B) (initial B) v \<in> set (finals B))"
      unfolding add_isFinal_iff by (simp only: supl supr) blast
    also have "\<dots> \<longleftrightarrow> (\<exists>u v. w = u @ v \<and> foldl (delta A) (initial A) u \<in> set (finals A) \<and>
            foldl (delta B) (initial B) v \<in> set (finals B))"
      by (metis append_Nil2 foldl_Nil)
    also have "\<dots> \<longleftrightarrow> (\<exists>u v. w = u @ v \<and> accepts A u = Inr True \<and> accepts B v = Inr True)"
      using run by blast
    finally show ?thesis .
  qed
  show ?thesis
    using res M(2,3,4) M(5) sem by auto
qed

section \<open>epsilon and the concatenation identity\<close>

lemma epsilon_ok:
  "\<exists>E. epsilon al = Inr E \<and> is_fsm E \<and> closed_table E \<and> alphabet E = al \<and>
     (\<forall>w. set w \<subseteq> set al \<longrightarrow> accepts E w = Inr (w = []))"
proof -
  define row :: "('a \<times> nat) list" where "row = dict (map (\<lambda>symbol. (symbol, 1)) al)"
  define E where "E = \<lparr>alphabet = al, states = [0, 1::nat], initial = 0, finals = [0],
     map_d = [(0, row), (1, row)]\<rparr>"
  have row: "map_of row a = Some 1" if "a \<in> set al" for a
    using that by (simp add: row_def map_of_dict_graph)
  have tgt: "t = 1" if "(a, t) \<in> set row" for a t
    using that set_dict_subset [of "map (\<lambda>symbol. (symbol, 1::nat)) al"] by (auto simp: row_def)
  have look: "lookup E s a = Inr 1" if "s = 0 \<or> s = 1" "a \<in> set al" for s a
    using that row by (auto simp: lookup_Inr_iff E_def)
  have fsm: "is_fsm E"
    unfolding is_fsm_iff table_ok_def using row by (auto simp: E_def)
  have closed: "closed_table E"
    unfolding closed_table_def using tgt by (auto simp: E_def)
  have eq: "epsilon al = Inr E"
    using fsm by (simp add: epsilon_def fsm_init_Inr_iff E_def row_def)
  have dead: "accepts_from E 1 w = Inr False" if "set w \<subseteq> set al" for w
    using that
  proof (induction w)
    case Nil
    show ?case by (simp add: E_def)
  next
    case (Cons a w)
    then show ?case by (simp add: look)
  qed
  have "accepts E w = Inr (w = [])" if "set w \<subseteq> set al" for w
  proof (cases w)
    case Nil
    then show ?thesis by (simp add: accepts_def E_def)
  next
    case (Cons a v)
    with that have "lookup E (initial E) a = Inr 1" "set v \<subseteq> set al"
      using look [of 0 a] by (simp_all add: E_def)
    with Cons dead [of v] show ?thesis by (simp add: accepts_def)
  qed
  with eq fsm closed show ?thesis by (auto simp: E_def)
qed

lemma is_fsm_accepts_bool:
  assumes "is_fsm M" "set w \<subseteq> set (alphabet M)"
  shows "accepts M w = Inr (accepts M w = Inr True)"
  using accepts_foldl(1) [OF assms] by auto

text \<open>
  C3. For an automaton \<open>A\<close>, with \<open>E = epsilon(A.alphabet)\<close>: \<open>A + E\<close> and \<open>E + A\<close> are
  returned, and each gives on every sequence over the alphabet the answer that \<open>A\<close>
  gives.
\<close>

theorem concatenation_identity:
  fixes A :: "('a, 'q) fsm"
  assumes "is_fsm A"
  shows "\<exists>E M1 M2. epsilon (alphabet A) = Inr E \<and>
     fsm_add str A E = Some (Inr M1) \<and> fsm_add str E A = Some (Inr M2) \<and>
     (\<forall>w. set w \<subseteq> set (alphabet A) \<longrightarrow>
        accepts M1 w = accepts A w \<and> accepts M2 w = accepts A w)"
proof -
  from epsilon_ok [of "alphabet A"] obtain E where
    E: "epsilon (alphabet A) = Inr E" "is_fsm E" "alphabet E = alphabet A"
      "\<forall>w. set w \<subseteq> set (alphabet A) \<longrightarrow> accepts E w = Inr (w = [])"
    by blast
  have al: "set (alphabet E) = set (alphabet A)" "set (alphabet A) = set (alphabet E)"
    using E(3) by simp_all
  from fsm_add_ok [OF assms E(2) al(1), of str] obtain M1 where
    M1: "fsm_add str A E = Some (Inr M1)"
      "\<forall>w. set w \<subseteq> set (alphabet A) \<longrightarrow>
        accepts M1 w = Inr (\<exists>u v. w = u @ v \<and> accepts A u = Inr True \<and> accepts E v = Inr True)"
    by blast
  from fsm_add_ok [OF E(2) assms al(2), of str] obtain M2 where
    M2: "fsm_add str E A = Some (Inr M2)"
      "\<forall>w. set w \<subseteq> set (alphabet A) \<longrightarrow>
        accepts M2 w = Inr (\<exists>u v. w = u @ v \<and> accepts E u = Inr True \<and> accepts A v = Inr True)"
    using E(3) by auto
  have "accepts M1 w = accepts A w \<and> accepts M2 w = accepts A w"
    if w: "set w \<subseteq> set (alphabet A)" for w
  proof -
    have eps: "accepts E u = Inr True \<longleftrightarrow> u = []" if "set u \<subseteq> set w" for u
      using E(4) that w by auto
    have "(\<exists>u v. w = u @ v \<and> accepts A u = Inr True \<and> accepts E v = Inr True) \<longleftrightarrow>
        accepts A w = Inr True"
    proof
      assume "\<exists>u v. w = u @ v \<and> accepts A u = Inr True \<and> accepts E v = Inr True"
      then obtain u v where uv: "w = u @ v" "accepts A u = Inr True" "accepts E v = Inr True"
        by blast
      with eps [of v] have "v = []" by auto
      with uv show "accepts A w = Inr True" by simp
    next
      assume "accepts A w = Inr True"
      moreover have "accepts E [] = Inr True" using eps [of "[]"] by simp
      ultimately show "\<exists>u v. w = u @ v \<and> accepts A u = Inr True \<and> accepts E v = Inr True"
        by (intro exI [of _ w] exI [of _ "[]"]) simp
    qed
    moreover have "(\<exists>u v. w = u @ v \<and> accepts E u = Inr True \<and> accepts A v = Inr True) \<longleftrightarrow>
        accepts A w = Inr True"
    proof
      assume "\<exists>u v. w = u @ v \<and> accepts E u = Inr True \<and> accepts A v = Inr True"
      then obtain u v where uv: "w = u @ v" "accepts E u = Inr True" "accepts A v = Inr True"
        by blast
      with eps [of u] have "u = []" by auto
      with uv show "accepts A w = Inr True" by simp
    next
      assume "accepts A w = Inr True"
      moreover have "accepts E [] = Inr True" using eps [of "[]"] by simp
      ultimately show "\<exists>u v. w = u @ v \<and> accepts E u = Inr True \<and> accepts A v = Inr True"
        by (intro exI [of _ "[]"] exI [of _ w]) simp
    qed
    ultimately show ?thesis
      using M1(2) M2(2) w is_fsm_accepts_bool [OF assms w] by simp
  qed
  with E(1) M1(1) M2(1) show ?thesis by blast
qed

theorem concatenation_identity_witness:
  "is_fsm test_a \<and>
   (\<exists>E M1 M2. epsilon ''ab'' = Inr E \<and>
      fsm_add str_char test_a E = Some (Inr M1) \<and> fsm_add str_char E test_a = Some (Inr M2) \<and>
      accepts M1 ''a'' = Inr True \<and> accepts M2 ''a'' = Inr True \<and>
      accepts M1 ''ab'' = Inr False \<and> accepts M2 ''ab'' = Inr False)"
proof -
  have h: "is_fsm test_a" by code_simp
  have al: "alphabet test_a = ''ab''" by (simp add: test_a_def)
  have acc: "accepts test_a ''a'' = Inr True" "accepts test_a ''ab'' = Inr False"
    by code_simp+
  from concatenation_identity [OF h, of str_char] obtain E M1 M2 where
    r: "epsilon ''ab'' = Inr E" "fsm_add str_char test_a E = Some (Inr M1)"
      "fsm_add str_char E test_a = Some (Inr M2)"
      "\<forall>w. set w \<subseteq> set ''ab'' \<longrightarrow> accepts M1 w = accepts test_a w \<and> accepts M2 w = accepts test_a w"
    unfolding al by blast
  from r(4) have "accepts M1 ''a'' = accepts test_a ''a''" "accepts M2 ''a'' = accepts test_a ''a''"
    "accepts M1 ''ab'' = accepts test_a ''ab''" "accepts M2 ''ab'' = accepts test_a ''ab''"
    by simp_all
  with acc r(1-3) h show ?thesis by auto
qed

section \<open>Bounded repetition\<close>

text \<open>
  The language of an automaton: the sequences over its alphabet that it accepts; the
  concatenation of two languages; \<open>n\<close> concatenated copies of a language.
\<close>

definition lang :: "('a, 'q) fsm \<Rightarrow> 'a list set" where
  "lang M = {w. set w \<subseteq> set (alphabet M) \<and> accepts M w = Inr True}"

definition conc_lang :: "'a list set \<Rightarrow> 'a list set \<Rightarrow> 'a list set" where
  "conc_lang K L = {u @ v |u v. u \<in> K \<and> v \<in> L}"

fun copies :: "'a list set \<Rightarrow> nat \<Rightarrow> 'a list set" where
  "copies L 0 = {[]}"
| "copies L (Suc n) = conc_lang L (copies L n)"

lemma conc_lang_assoc: "conc_lang (conc_lang K L) N = conc_lang K (conc_lang L N)"
  unfolding conc_lang_def
  apply (rule set_eqI)
  apply (simp only: mem_Collect_eq)
  apply (rule iffI)
   apply (metis append.assoc)
  apply (metis append.assoc)
  done

lemma conc_lang_Nil [simp]: "conc_lang {[]} L = L" "conc_lang L {[]} = L"
  by (auto simp: conc_lang_def)

lemma lang_iff:
  assumes "is_fsm M" "set w \<subseteq> set (alphabet M)"
  shows "accepts M w = Inr (w \<in> lang M)"
  using is_fsm_accepts_bool [OF assms] assms(2) by (simp add: lang_def)

lemma lang_fsm_add:
  assumes al: "set (alphabet B) = set (alphabet A)" "alphabet M = alphabet A"
    and acc: "\<forall>w. set w \<subseteq> set (alphabet A) \<longrightarrow>
        accepts M w = Inr (\<exists>u v. w = u @ v \<and> accepts A u = Inr True \<and> accepts B v = Inr True)"
  shows "lang M = conc_lang (lang A) (lang B)"
proof (rule set_eqI)
  fix w
  show "w \<in> lang M \<longleftrightarrow> w \<in> conc_lang (lang A) (lang B)"
  proof
    assume "w \<in> lang M"
    then have w: "set w \<subseteq> set (alphabet A)" "accepts M w = Inr True"
      by (simp_all add: lang_def al)
    with acc obtain u v where "w = u @ v" "accepts A u = Inr True" "accepts B v = Inr True"
      by auto
    with w(1) al(1) show "w \<in> conc_lang (lang A) (lang B)"
      by (auto simp: conc_lang_def lang_def)
  next
    assume "w \<in> conc_lang (lang A) (lang B)"
    then obtain u v where uv: "w = u @ v" "set u \<subseteq> set (alphabet A)" "accepts A u = Inr True"
      "set v \<subseteq> set (alphabet B)" "accepts B v = Inr True"
      by (auto simp: conc_lang_def lang_def)
    then have w: "set w \<subseteq> set (alphabet A)" using al(1) by auto
    with acc uv have "accepts M w = Inr True" by auto
    with w show "w \<in> lang M" by (simp add: lang_def al)
  qed
qed

lemma add_times_ok:
  fixes out :: "('a, nat) fsm" and q :: "('a, 'q) fsm"
  assumes q: "is_fsm q"
  shows "is_fsm out \<Longrightarrow> set (alphabet q) = set (alphabet out) \<Longrightarrow>
    \<exists>M. add_times str out q n = Some (Inr M) \<and> is_fsm M \<and> alphabet M = alphabet out \<and>
       lang M = conc_lang (lang out) (copies (lang q) n)"
proof (induction n arbitrary: out)
  case 0
  then show ?case by simp
next
  case (Suc n)
  from fsm_add_ok [OF Suc.prems(1) q Suc.prems(2), of str] obtain M1 where
    M1: "fsm_add str out q = Some (Inr M1)" "is_fsm M1" "alphabet M1 = alphabet out"
      "\<forall>w. set w \<subseteq> set (alphabet out) \<longrightarrow>
        accepts M1 w = Inr (\<exists>u v. w = u @ v \<and> accepts out u = Inr True \<and> accepts q v = Inr True)"
    by blast
  have l1: "lang M1 = conc_lang (lang out) (lang q)"
    by (rule lang_fsm_add [OF Suc.prems(2) M1(3) M1(4)])
  from Suc.IH [OF M1(2)] Suc.prems(2) M1(3) obtain M where
    M: "add_times str M1 q n = Some (Inr M)" "is_fsm M" "alphabet M = alphabet M1"
      "lang M = conc_lang (lang M1) (copies (lang q) n)"
    by auto
  have "lang M = conc_lang (lang out) (copies (lang q) (Suc n))"
    by (simp add: M(4) l1 conc_lang_assoc)
  with M M1 show ?case by (simp add: bindC_def)
qed

lemma lang_epsilon:
  assumes "alphabet E = al" "\<forall>w. set w \<subseteq> set al \<longrightarrow> accepts E w = Inr (w = [])"
  shows "lang E = {[]}"
  using assms by (auto simp: lang_def)

text \<open>
  C10. For an automaton \<open>A\<close> and integers \<open>max < min\<close>, \<open>A * (min, max)\<close> raises nothing
  and returns the automaton that \<open>A * (min, min)\<close> returns; it accepts the sequences over
  the alphabet that are \<open>min\<close> concatenated sequences accepted by \<open>A\<close> (none when
  \<open>min\<close> is not positive: \<open>range(min)\<close> is then empty).
\<close>

theorem mul_max_below_min:
  fixes A :: "('a, nat) fsm"
  assumes "is_fsm A" "mx < mn"
  shows "\<exists>M. fsm_mul str A (mn, Some mx) = Some (Inr M) \<and>
     fsm_mul str A (mn, Some mn) = Some (Inr M) \<and>
     (\<forall>w. set w \<subseteq> set (alphabet A) \<longrightarrow> accepts M w = Inr (w \<in> copies (lang A) (nat mn)))"
proof -
  from epsilon_ok [of "alphabet A"] obtain E where
    E: "epsilon (alphabet A) = Inr E" "is_fsm E" "alphabet E = alphabet A"
      "\<forall>w. set w \<subseteq> set (alphabet A) \<longrightarrow> accepts E w = Inr (w = [])"
    by blast
  have lE: "lang E = {[]}" by (rule lang_epsilon [OF E(3,4)])
  from add_times_ok [OF assms(1) E(2), of str "nat mn"] E(3) obtain out where
    out: "add_times str E A (nat mn) = Some (Inr out)" "is_fsm out" "alphabet out = alphabet A"
      "lang out = conc_lang (lang E) (copies (lang A) (nat mn))"
    by auto
  from fsm_or_ok [OF assms(1) E(2), of str] E(3) obtain q where
    q: "fsm_or str A E = Some (Inr q)"
    by auto
  have 1: "fsm_mul str A (mn, Some mx) = Some (Inr out)"
    using assms(2) by (simp add: fsm_mul_def bindC_def E(1) out(1) q)
  have 2: "fsm_mul str A (mn, Some mn) = Some (Inr out)"
    by (simp add: fsm_mul_def bindC_def E(1) out(1) q)
  have "accepts out w = Inr (w \<in> copies (lang A) (nat mn))" if "set w \<subseteq> set (alphabet A)" for w
    using lang_iff [OF out(2), of w] that by (simp add: out(3,4) lE)
  with 1 2 show ?thesis by blast
qed

theorem mul_max_below_min_witness:
  "is_fsm test_a \<and>
   (\<exists>M. fsm_mul str_char test_a (2, Some 1) = Some (Inr M) \<and>
      fsm_mul str_char test_a (2, Some 2) = Some (Inr M) \<and>
      accepts M ''aa'' = Inr True \<and> accepts M ''a'' = Inr False)"
proof -
  have h: "is_fsm test_a" by code_simp
  have a: "''a'' \<in> lang test_a" "[] \<notin> lang test_a"
    unfolding lang_def mem_Collect_eq by code_simp+
  have two: "copies (lang test_a) 2 = conc_lang (lang test_a) (lang test_a)"
    by (simp add: numeral_2_eq_2)
  have "''a'' @ ''a'' \<in> conc_lang (lang test_a) (lang test_a)"
    using a(1) unfolding conc_lang_def by blast
  then have in2: "''aa'' \<in> copies (lang test_a) 2"
    by (simp add: two)
  have out2: "''a'' \<notin> copies (lang test_a) 2"
  proof
    assume "''a'' \<in> copies (lang test_a) 2"
    then obtain u v where uv: "''a'' = u @ v" "u \<in> lang test_a" "v \<in> lang test_a"
      unfolding two conc_lang_def by blast
    from uv(1) have "u = [] \<or> v = []" by (cases u) auto
    with uv(2,3) a(2) show False by auto
  qed
  from mul_max_below_min [OF h, of 1 2 str_char] obtain M where
    M: "fsm_mul str_char test_a (2, Some 1) = Some (Inr M)"
      "fsm_mul str_char test_a (2, Some 2) = Some (Inr M)"
      "\<forall>w. set w \<subseteq> set (alphabet test_a) \<longrightarrow>
         accepts M w = Inr (w \<in> copies (lang test_a) 2)"
    by auto
  from M(3) have "accepts M ''aa'' = Inr (''aa'' \<in> copies (lang test_a) 2)"
    "accepts M ''a'' = Inr (''a'' \<in> copies (lang test_a) 2)"
    by (simp_all add: test_a_def)
  with in2 out2 M(1,2) h show ?thesis by auto
qed

section \<open>Kleene star\<close>

text \<open>
  The star of a language: the sequences that are concatenations of finitely many of
  its sequences.
\<close>

inductive_set star_lang :: "'a list set \<Rightarrow> 'a list set" for L :: "'a list set" where
  star_Nil: "[] \<in> star_lang L"
| star_App: "u \<in> star_lang L \<Longrightarrow> v \<in> L \<Longrightarrow> u @ v \<in> star_lang L"

lemma star_lang_append: "v \<in> star_lang L \<Longrightarrow> u \<in> star_lang L \<Longrightarrow> u @ v \<in> star_lang L"
proof (induction rule: star_lang.induct)
  case star_Nil
  then show ?case by simp
next
  case (star_App v1 v2)
  then have "u @ v1 \<in> star_lang L" "v2 \<in> L" by simp_all
  then have "(u @ v1) @ v2 \<in> star_lang L" by (rule star_lang.star_App)
  then show ?case by simp
qed

lemma star_lang_base: "v \<in> L \<Longrightarrow> v \<in> star_lang L"
  using star_App [OF star_Nil, of v L] by simp

lemma star_lang_idem: "star_lang (star_lang L) = star_lang L"
proof (rule set_eqI, rule iffI)
  fix w assume "w \<in> star_lang (star_lang L)"
  then show "w \<in> star_lang L"
    by (induction rule: star_lang.induct) (auto intro: star_Nil star_lang_append)
next
  fix w assume "w \<in> star_lang L"
  then show "w \<in> star_lang (star_lang L)" by (rule star_lang_base)
qed

lemma star_lang_split:
  "w \<in> star_lang L \<Longrightarrow> w \<noteq> [] \<Longrightarrow> \<exists>u v. w = u @ v \<and> v \<noteq> [] \<and> u \<in> star_lang L \<and> v \<in> L"
proof (induction rule: star_lang.induct)
  case star_Nil
  then show ?case by simp
next
  case (star_App u v)
  show ?case
  proof (cases "v = []")
    case True
    with star_App show ?thesis by simp
  next
    case False
    with star_App show ?thesis by blast
  qed
qed

text \<open>
  The non-empty ends of \<open>w\<close> that follow a beginning in the star of \<open>L\<close>: the attempts
  at one more sequence of \<open>L\<close> that are under way after \<open>w\<close>.
\<close>

definition live :: "'a list set \<Rightarrow> 'a list \<Rightarrow> 'a list set" where
  "live L w = {v. v \<noteq> [] \<and> (\<exists>u. w = u @ v \<and> u \<in> star_lang L)}"

lemma live_Nil [simp]: "live L [] = {}"
  by (auto simp: live_def)

lemma live_snoc:
  "live L (w @ [a]) = (\<lambda>v. v @ [a]) ` live L w \<union> (if w \<in> star_lang L then {[a]} else {})"
proof (rule set_eqI, rule iffI)
  fix v assume "v \<in> live L (w @ [a])"
  then obtain u where v: "v \<noteq> []" "w @ [a] = u @ v" "u \<in> star_lang L"
    by (auto simp: live_def)
  from v(1) obtain v' b where vb: "v = v' @ [b]" by (cases v rule: rev_cases) auto
  with v(2) have w: "w = u @ v'" "b = a" by simp_all
  show "v \<in> (\<lambda>v. v @ [a]) ` live L w \<union> (if w \<in> star_lang L then {[a]} else {})"
  proof (cases "v' = []")
    case True
    with w v(3) vb show ?thesis by simp
  next
    case False
    with w v(3) have "v' \<in> live L w" by (auto simp: live_def)
    with vb w show ?thesis by simp
  qed
next
  fix v assume "v \<in> (\<lambda>v. v @ [a]) ` live L w \<union> (if w \<in> star_lang L then {[a]} else {})"
  then consider v' where "v = v' @ [a]" "v' \<in> live L w" | "v = [a]" "w \<in> star_lang L"
    by (auto split: if_splits)
  then show "v \<in> live L (w @ [a])"
  proof cases
    case 1
    then obtain u where "w = u @ v'" "u \<in> star_lang L" by (auto simp: live_def)
    with 1 show ?thesis by (auto simp: live_def)
  next
    case 2
    then show ?thesis by (auto simp: live_def)
  qed
qed

lemma star_lang_live: "w \<noteq> [] \<Longrightarrow> w \<in> star_lang L \<longleftrightarrow> (\<exists>v\<in>live L w. v \<in> L)"
proof
  assume "w \<noteq> []" "w \<in> star_lang L"
  from star_lang_split [OF this(2,1)] show "\<exists>v\<in>live L w. v \<in> L"
    by (auto simp: live_def)
next
  assume "\<exists>v\<in>live L w. v \<in> L"
  then obtain u v where "w = u @ v" "u \<in> star_lang L" "v \<in> L"
    by (auto simp: live_def)
  then show "w \<in> star_lang L" by (auto intro: star_App)
qed

lemma live_suffix: "v \<in> live L w \<Longrightarrow> set v \<subseteq> set w"
  by (auto simp: live_def)

lemma omega_loop_fresh: "omega_loop sts n \<notin> set sts"
  by (induction sts n rule: omega_loop.induct) (simp split: if_splits)

text \<open>What one state contributes to the next superstate of \<open>star\<close>.\<close>

definition star_step :: "('a, nat) fsm \<Rightarrow> nat \<Rightarrow> 'a \<Rightarrow> nat \<Rightarrow> nat set" where
  "star_step A omega a x =
     (let t = delta A (if x = omega then initial A else x) a
      in if t \<in> set (finals A) then {t, omega} else {t})"

lemma star_next_step:
  assumes "is_fsm A" "a \<in> set (alphabet A)" "x \<in> insert omega (set (states A))"
  shows "star_next A omega a x = Inr (star_step A omega a x)"
    "star_step A omega a x \<subseteq> insert omega (set (states A))"
proof -
  let ?x = "if x = omega then initial A else x"
  have "?x \<in> set (states A)" using assms(1,3) by (auto simp: is_fsm_iff)
  note d = is_fsm_delta [OF assms(1) this assms(2)]
  show "star_next A omega a x = Inr (star_step A omega a x)"
    using d(1) by (simp add: star_next_def star_step_def Let_def)
  show "star_step A omega a x \<subseteq> insert omega (set (states A))"
    using d(2) by (auto simp: star_step_def Let_def)
qed

lemma lang_foldl:
  assumes "is_fsm A" "set v \<subseteq> set (alphabet A)"
  shows "foldl (delta A) (initial A) v \<in> set (finals A) \<longleftrightarrow> v \<in> lang A"
  using accepts_foldl(1) [OF assms] assms(2) by (simp add: lang_def)

text \<open>
  The superstate of \<open>star\<close> after a sequence \<open>w\<close>: the states of \<open>A\<close> after the
  attempts under way, and omega when \<open>w\<close> is in the star of the language of \<open>A\<close>.
\<close>

lemma star_superstate:
  fixes A :: "('a, nat) fsm"
  assumes A: "is_fsm A" and om: "omega \<notin> set (states A)"
  shows "set w \<subseteq> set (alphabet A) \<Longrightarrow>
    foldl (\<lambda>S a. \<Union>x\<in>S. star_step A omega a x) {omega} w =
      foldl (delta A) (initial A) ` live (lang A) w \<union>
      (if w \<in> star_lang (lang A) then {omega} else {})"
proof (induction w rule: rev_induct)
  case Nil
  show ?case by (simp add: star_Nil)
next
  case (snoc a w)
  let ?run = "foldl (delta A) (initial A)"
  let ?L = "lang A"
  define G where "G v = (if ?run v \<in> set (finals A) then {?run v, omega} else {?run v})" for v
  from snoc.prems have w: "set w \<subseteq> set (alphabet A)" and a: "a \<in> set (alphabet A)"
    by simp_all
  note IH = snoc.IH [OF w]
  have st_live: "star_step A omega a (?run v) = G (v @ [a])" if "v \<in> live ?L w" for v
  proof -
    from live_suffix [OF that] w have "set v \<subseteq> set (alphabet A)" by blast
    from accepts_foldl(2) [OF A this] om have "?run v \<noteq> omega" by auto
    then show ?thesis by (simp add: star_step_def G_def Let_def)
  qed
  have st_om: "star_step A omega a omega = G [a]"
    by (simp add: star_step_def G_def Let_def)
  have "foldl (\<lambda>S a. \<Union>x\<in>S. star_step A omega a x) {omega} (w @ [a]) =
      (\<Union>x\<in>?run ` live ?L w \<union> (if w \<in> star_lang ?L then {omega} else {}).
          star_step A omega a x)"
    by (simp only: foldl_append foldl.simps IH)
  also have "\<dots> = (\<Union>v\<in>live ?L w. G (v @ [a])) \<union> (if w \<in> star_lang ?L then G [a] else {})"
    using st_live st_om by (auto split: if_splits)
  also have "\<dots> = (\<Union>v\<in>live ?L (w @ [a]). G v)"
    unfolding live_snoc by (auto split: if_splits)
  also have "\<dots> = ?run ` live ?L (w @ [a]) \<union>
      (if \<exists>v\<in>live ?L (w @ [a]). ?run v \<in> set (finals A) then {omega} else {})"
    by (auto simp: G_def split: if_splits)
  also have "(\<exists>v\<in>live ?L (w @ [a]). ?run v \<in> set (finals A)) \<longleftrightarrow>
      (\<exists>v\<in>live ?L (w @ [a]). v \<in> ?L)"
  proof (rule bex_cong [OF refl])
    fix v assume "v \<in> live ?L (w @ [a])"
    from live_suffix [OF this] snoc.prems have "set v \<subseteq> set (alphabet A)" by blast
    then show "?run v \<in> set (finals A) \<longleftrightarrow> v \<in> ?L" by (rule lang_foldl [OF A])
  qed
  also have "\<dots> \<longleftrightarrow> w @ [a] \<in> star_lang ?L"
    by (rule star_lang_live [symmetric]) simp
  finally show ?case .
qed

text \<open>
  \<open>A.star()\<close> is returned, and accepts the sequences over the alphabet that are in the
  star of the language of \<open>A\<close>.
\<close>

lemma star_ok:
  fixes A :: "('a, nat) fsm"
  assumes A: "is_fsm A"
  shows "\<exists>M. star str A = Some (Inr M) \<and> is_fsm M \<and> closed_table M \<and> alphabet M = alphabet A \<and>
     (\<forall>w. set w \<subseteq> set (alphabet A) \<longrightarrow> accepts M w = Inr (w \<in> star_lang (lang A)))"
proof -
  define omega where "omega = omega_loop (states A) 0"
  have om: "omega \<notin> set (states A)" unfolding omega_def by (rule omega_loop_fresh)
  let ?V = "insert omega (set (states A))"
  let ?U = "Pow ?V"
  let ?nxt = "\<lambda>S a. \<Union>x\<in>S. star_step A omega a x"
  have fin: "finite ?U" by simp
  have ini: "{omega} \<in> ?U" by simp
  have closed: "star_getNext A omega S a = Inr (?nxt S a) \<and> ?nxt S a \<in> ?U"
    if "S \<in> ?U" "a \<in> set (alphabet A)" for S a
  proof -
    have mem: "x \<in> ?V" if "x \<in> S" for x using that \<open>S \<in> ?U\<close> by auto
    have "star_getNext A omega S a = Inr (?nxt S a)"
      unfolding star_getNext_def
      by (rule collect_Inr) (rule star_next_step(1) [OF A that(2) mem])
    moreover have "?nxt S a \<subseteq> ?V"
      using star_next_step(2) [OF A that(2) mem] by blast
    ultimately show ?thesis by simp
  qed
  from crawl_ok [of ?U "{omega}" "alphabet A" "star_getNext A omega" ?nxt str "star_isFinal omega",
      OF fin ini closed]
  obtain M where M: "crawl str (alphabet A) {omega} (star_isFinal omega) (star_getNext A omega)
        = Some (Inr M)"
    "is_fsm M" "closed_table M" "alphabet M = alphabet A"
    "\<forall>w. set w \<subseteq> set (alphabet A) \<longrightarrow> accepts M w = Inr (star_isFinal omega (foldl ?nxt {omega} w))"
    by blast
  have res: "star str A = Some (Inr M)"
    using M(1) by (simp add: star_def Let_def omega_def)
  have sem: "star_isFinal omega (foldl ?nxt {omega} w) \<longleftrightarrow> w \<in> star_lang (lang A)"
    if w: "set w \<subseteq> set (alphabet A)" for w
  proof -
    have "omega \<notin> foldl (delta A) (initial A) ` live (lang A) w"
    proof
      assume "omega \<in> foldl (delta A) (initial A) ` live (lang A) w"
      then obtain v where v: "v \<in> live (lang A) w" "omega = foldl (delta A) (initial A) v"
        by blast
      from live_suffix [OF v(1)] w have "set v \<subseteq> set (alphabet A)" by blast
      from accepts_foldl(2) [OF A this] v(2) om show False by simp
    qed
    then show ?thesis
      unfolding star_isFinal_def star_superstate [OF A om w] by simp
  qed
  show ?thesis
    using res M(2,3,4) M(5) sem by auto
qed

lemma star_lang_alphabet: "w \<in> star_lang (lang A) \<Longrightarrow> set w \<subseteq> set (alphabet A)"
  by (induction rule: star_lang.induct) (auto simp: lang_def)

text \<open>
  C4. For an automaton \<open>A\<close>, \<open>A.star()\<close> and \<open>A.star().star()\<close> are returned, and on
  every sequence over the alphabet the second gives the answer that the first gives.
\<close>

theorem star_idempotent:
  fixes A :: "('a, nat) fsm"
  assumes "is_fsm A"
  shows "\<exists>M1 M2. star str A = Some (Inr M1) \<and> star str M1 = Some (Inr M2) \<and>
     (\<forall>w. set w \<subseteq> set (alphabet A) \<longrightarrow> accepts M2 w = accepts M1 w)"
proof -
  from star_ok [OF assms, of str] obtain M1 where
    M1: "star str A = Some (Inr M1)" "is_fsm M1" "alphabet M1 = alphabet A"
      "\<forall>w. set w \<subseteq> set (alphabet A) \<longrightarrow> accepts M1 w = Inr (w \<in> star_lang (lang A))"
    by blast
  from star_ok [OF M1(2), of str] M1(3) obtain M2 where
    M2: "star str M1 = Some (Inr M2)"
      "\<forall>w. set w \<subseteq> set (alphabet A) \<longrightarrow> accepts M2 w = Inr (w \<in> star_lang (lang M1))"
    by auto
  have l1: "lang M1 = star_lang (lang A)"
  proof (rule set_eqI)
    fix w
    show "w \<in> lang M1 \<longleftrightarrow> w \<in> star_lang (lang A)"
      using M1(3,4) star_lang_alphabet [of w A] by (auto simp: lang_def)
  qed
  have "accepts M2 w = accepts M1 w" if "set w \<subseteq> set (alphabet A)" for w
    using M1(4) M2(2) that by (simp add: l1 star_lang_idem)
  with M1(1) M2(1) show ?thesis by blast
qed

theorem star_idempotent_witness:
  "is_fsm test_a \<and>
   (\<exists>M1 M2. star str_char test_a = Some (Inr M1) \<and> star str_char M1 = Some (Inr M2) \<and>
      accepts M2 ''aa'' = accepts M1 ''aa'' \<and> accepts M2 ''ab'' = accepts M1 ''ab'')"
proof -
  have h: "is_fsm test_a" by code_simp
  from star_idempotent [OF h, of str_char] obtain M1 M2 where
    r: "star str_char test_a = Some (Inr M1)" "star str_char M1 = Some (Inr M2)"
      "\<forall>w. set w \<subseteq> set (alphabet test_a) \<longrightarrow> accepts M2 w = accepts M1 w"
    by blast
  from r(3) have "accepts M2 ''aa'' = accepts M1 ''aa''" "accepts M2 ''ab'' = accepts M1 ''ab''"
    by (simp_all add: test_a_def)
  with r(1,2) h show ?thesis by blast
qed

section \<open>Extraction of an expression: \<open>fsm.pattern\<close>\<close>

text \<open>
  Modelled from the spec: the symbolic-expression algebra of the module \<open>lego\<close>, which
  \<open>pattern\<close> imports (\<open>nothing\<close>, \<open>charclass\<close>, \<open>emptystring\<close>, \<open>star\<close>,
  \<open>otherchars\<close>) and which is not among the sources. By sections 4.5 and 6 of the
  specification an expression is a class of symbols or the complement of a finite set of
  symbols (\<open>Charclass S negated\<close>), the empty string, the empty language, or an
  alternation (the operator \<open>|\<close>), a concatenation (\<open>+\<close>) or a closure (\<open>* star\<close>) of
  expressions; \<open>denotes\<close> is the set of sequences derivable from an expression.
\<close>

datatype 'a lego =
    Charclass "'a set" bool
  | Emptystring
  | Nothing
  | Alt "'a lego" "'a lego"
  | Conc "'a lego" "'a lego"
  | Star "'a lego"

fun denotes :: "'a lego \<Rightarrow> 'a list set" where
  "denotes (Charclass S negated) = {[c] |c. (c \<in> S) \<noteq> negated}"
| "denotes Emptystring = {[]}"
| "denotes Nothing = {}"
| "denotes (Alt x y) = denotes x \<union> denotes y"
| "denotes (Conc x y) = conc_lang (denotes x) (denotes y)"
| "denotes (Star x) = star_lang (denotes x)"

text \<open>\<open>~c\<close> on a class of symbols.\<close>

fun negate :: "'a lego \<Rightarrow> 'a lego" where
  "negate (Charclass S negated) = Charclass S (\<not> negated)"
| "negate x = x"

text \<open>
  The class \<open>equation\<close> of \<open>pattern\<close>. A state-set (a frozenset) is a set; a key of
  \<open>lefts\<close> is \<open>Some\<close> state-set or \<open>None\<close>, the marker \<open>outside\<close>; the dictionary
  \<open>lefts\<close> is an association list in the order of insertion.
\<close>

record ('a, 'q) equation =
  right :: "'q set"
  lefts :: "('q set option \<times> 'a lego) list"

text \<open>\<open>equation.__addTransition\<close>.\<close>

definition addTransition ::
  "('q set option \<times> 'a lego) list \<Rightarrow> 'q set option \<Rightarrow> 'a lego \<Rightarrow> ('q set option \<times> 'a lego) list"
where
  "addTransition ls left element =
     (case map_of ls left of
        Some x \<Rightarrow> AList.update left (Alt x element) ls
      | None \<Rightarrow> AList.update left element ls)"

text \<open>
  Lines 472 to 475: the states from which \<open>symbol\<close> leads into the state-set \<open>r\<close>. For every
  state of \<open>r\<close> every key of the map is looked at, and \<open>fsm.map[prev][symbol]\<close> raises
  KeyError when the row of \<open>prev\<close> has no entry for the symbol.
\<close>

definition preimage :: "('a, 'q) fsm \<Rightarrow> 'a \<Rightarrow> 'q set \<Rightarrow> error + 'q set" where
  "preimage M symbol r =
     (if r = {} then Inr {}
      else if \<exists>prev\<in>set (map fst (map_d M)). isl (lookup M prev symbol) then Inl KeyError
      else Inr {prev \<in> set (map fst (map_d M)). projr (lookup M prev symbol) \<in> r})"

text \<open>The loop of \<open>equation.__init__\<close> over the sorted symbols, and the constructor.\<close>

fun equation_symbols ::
  "'a \<Rightarrow> ('a, 'q) fsm \<Rightarrow> 'q set \<Rightarrow> 'a list \<Rightarrow> ('q set option \<times> 'a lego) list
     \<Rightarrow> error + ('q set option \<times> 'a lego) list"
where
  "equation_symbols otherchars M r [] ls = Inr ls"
| "equation_symbols otherchars M r (symbol # symbols) ls =
     bindE (preimage M symbol r) (\<lambda>left.
       equation_symbols otherchars M r symbols
         (if symbol = otherchars
          then addTransition ls (Some left)
                 (negate (Charclass (set (alphabet M) - {otherchars}) False))
          else addTransition ls (Some left) (Charclass {symbol} False)))"

definition equation_init ::
  "'a \<Rightarrow> ('a \<Rightarrow> string) \<Rightarrow> 'q set \<Rightarrow> ('a, 'q) fsm \<Rightarrow> error + ('a, 'q) equation"
where
  "equation_init otherchars str r M =
     bindE (equation_symbols otherchars M r (sort_key str (alphabet M)) []) (\<lambda>ls.
       Inr \<lparr>right = r,
            lefts = (if initial M \<in> r then addTransition ls None Emptystring else ls)\<rparr>)"

text \<open>\<open>equation.applyLoops\<close>.\<close>

definition applyLoops :: "('a, 'q) equation \<Rightarrow> ('a, 'q) equation" where
  "applyLoops e =
     (case map_of (lefts e) (Some (right e)) of
        None \<Rightarrow> e
      | Some x \<Rightarrow>
          e\<lparr>lefts := map (\<lambda>(left, y). (left, Conc y (Star x)))
                        (AList.delete (Some (right e)) (lefts e))\<rparr>)"

text \<open>
  \<open>equation.eliminate\<close>: \<open>eliminate_loop\<close> is its loop over \<open>other.lefts\<close>, which
  reads \<open>self.lefts[other.right]\<close> at every turn.
\<close>

fun eliminate_loop ::
  "'q set \<Rightarrow> ('q set option \<times> 'a lego) list \<Rightarrow> ('q set option \<times> 'a lego) list
     \<Rightarrow> error + ('q set option \<times> 'a lego) list"
where
  "eliminate_loop other_right [] ls = Inr ls"
| "eliminate_loop other_right ((otherLeft, x) # rest) ls =
     (if otherLeft = Some other_right then Inl LoopsException
      else (case map_of ls (Some other_right) of
              None \<Rightarrow> Inl KeyError
            | Some y \<Rightarrow> eliminate_loop other_right rest (addTransition ls otherLeft (Conc x y))))"

definition eliminate ::
  "('a, 'q) equation \<Rightarrow> ('a, 'q) equation \<Rightarrow> error + ('a, 'q) equation"
where
  "eliminate self other =
     (if map_of (lefts self) (Some (right other)) = None then Inr self
      else bindE (eliminate_loop (right other) (lefts other) (lefts self)) (\<lambda>ls.
             Inr (self\<lparr>lefts := AList.delete (Some (right other)) ls\<rparr>)))"

text \<open>
  The first loop of \<open>pattern\<close> (lines 545 to 556), over the growing list of equations:
  \<open>discover_keys\<close> is the inner loop over the keys of \<open>equations[i].lefts\<close>.
\<close>

fun discover_keys ::
  "'a \<Rightarrow> ('a \<Rightarrow> string) \<Rightarrow> ('a, 'q) fsm \<Rightarrow> 'q set option list \<Rightarrow> ('a, 'q) equation list
     \<Rightarrow> error + ('a, 'q) equation list"
where
  "discover_keys otherchars str M [] equations = Inr equations"
| "discover_keys otherchars str M (k # ks) equations =
     (case k of
        None \<Rightarrow> discover_keys otherchars str M ks equations
      | Some r \<Rightarrow>
          if r \<in> set (map right equations) then discover_keys otherchars str M ks equations
          else bindE (equation_init otherchars str r M) (\<lambda>e.
                 discover_keys otherchars str M ks (equations @ [e])))"

partial_function (option) discover_loop ::
  "'a \<Rightarrow> ('a \<Rightarrow> string) \<Rightarrow> ('a, 'q) fsm \<Rightarrow> nat \<Rightarrow> ('a, 'q) equation list
     \<Rightarrow> (error + ('a, 'q) equation list) option"
where
  "discover_loop otherchars str M i equations =
     (if i < length equations then
        (case discover_keys otherchars str M (map fst (lefts (equations ! i))) equations of
           Inl e \<Rightarrow> Some (Inl e)
         | Inr equations' \<Rightarrow> discover_loop otherchars str M (i + 1) equations')
      else Some (Inr equations))"

declare discover_loop.simps [code]

text \<open>
  The second loop (lines 560 to 563), backwards: \<open>eliminate_into\<close> is the inner loop
  over \<open>j\<close>, \<open>backfill\<close> the outer loop over \<open>i\<close>; both get the indices still to visit.
\<close>

fun eliminate_into ::
  "nat \<Rightarrow> nat list \<Rightarrow> ('a, 'q) equation list \<Rightarrow> error + ('a, 'q) equation list"
where
  "eliminate_into i [] equations = Inr equations"
| "eliminate_into i (j # js) equations =
     bindE (eliminate (equations ! j) (equations ! i)) (\<lambda>e.
       eliminate_into i js (equations[j := e]))"

fun backfill :: "nat list \<Rightarrow> ('a, 'q) equation list \<Rightarrow> error + ('a, 'q) equation list" where
  "backfill [] equations = Inr equations"
| "backfill (i # is) equations =
     bindE (eliminate_into i (rev [0..<i]) (equations[i := applyLoops (equations ! i)]))
       (\<lambda>equations'. backfill is equations')"

text \<open>\<open>fsm.pattern\<close>.\<close>

definition pattern ::
  "'a \<Rightarrow> ('a \<Rightarrow> string) \<Rightarrow> ('a, 'q) fsm \<Rightarrow> (error + 'a lego) option"
where
  "pattern otherchars str M =
     (case equation_init otherchars str (set (finals M)) M of
        Inl e \<Rightarrow> Some (Inl e)
      | Inr first \<Rightarrow>
          (case discover_loop otherchars str M 0 [first] of
             None \<Rightarrow> None
           | Some (Inl e) \<Rightarrow> Some (Inl e)
           | Some (Inr equations) \<Rightarrow>
               (case backfill (rev [0..<length equations]) equations of
                  Inl e \<Rightarrow> Some (Inl e)
                | Inr equations' \<Rightarrow>
                    (case map_of (lefts (equations' ! 0)) None of
                       Some x \<Rightarrow> Some (Inr x)
                     | None \<Rightarrow> Some (Inr Nothing)))))"

section \<open>What \<open>pattern\<close> extracts\<close>

text \<open>
  A symbol that is not in the alphabet is read as the wildcard \<open>otherchars\<close>.
  \<open>reach\<close> is the set of sequences that, read so, lead the automaton from its initial
  state into a state-set; the marker \<open>outside\<close> is reached by the empty sequence only.
\<close>

definition abstract :: "'a \<Rightarrow> ('a, 'q) fsm \<Rightarrow> 'a \<Rightarrow> 'a" where
  "abstract otherchars M c = (if c \<in> set (alphabet M) then c else otherchars)"

definition reach :: "'a \<Rightarrow> ('a, 'q) fsm \<Rightarrow> 'q set \<Rightarrow> 'a list set" where
  "reach otherchars M R =
     {w. set (map (abstract otherchars M) w) \<subseteq> set (alphabet M) \<and>
         foldl (delta M) (initial M) (map (abstract otherchars M) w) \<in> R}"

definition reach_key :: "'a \<Rightarrow> ('a, 'q) fsm \<Rightarrow> 'q set option \<Rightarrow> 'a list set" where
  "reach_key otherchars M k = (case k of None \<Rightarrow> {[]} | Some L \<Rightarrow> reach otherchars M L)"

text \<open>The right-hand side of an equation: what its entries describe together.\<close>

definition rhs :: "'a \<Rightarrow> ('a, 'q) fsm \<Rightarrow> ('q set option \<rightharpoonup> 'a lego) \<Rightarrow> 'a list set" where
  "rhs otherchars M m =
     (\<Union>k. case m k of None \<Rightarrow> {} | Some x \<Rightarrow> conc_lang (reach_key otherchars M k) (denotes x))"

text \<open>
  An equation holds: the entries of \<open>lefts\<close> describe the sequences that reach \<open>right\<close>,
  and no entry for a state-set describes the empty sequence.
\<close>

definition sound :: "'a \<Rightarrow> ('a, 'q) fsm \<Rightarrow> ('a, 'q) equation \<Rightarrow> bool" where
  "sound otherchars M e \<longleftrightarrow>
     distinct (map fst (lefts e)) \<and>
     reach otherchars M (right e) = rhs otherchars M (map_of (lefts e)) \<and>
     (\<forall>L x. map_of (lefts e) (Some L) = Some x \<longrightarrow> [] \<notin> denotes x)"

lemma conc_lang_Un: "conc_lang (K \<union> K') L = conc_lang K L \<union> conc_lang K' L"
  "conc_lang K (L \<union> L') = conc_lang K L \<union> conc_lang K L'"
  by (auto simp: conc_lang_def)

lemma conc_lang_UN: "conc_lang (\<Union>i\<in>I. K i) L = (\<Union>i\<in>I. conc_lang (K i) L)"
  by (auto simp: conc_lang_def)

lemma conc_lang_empty [simp]: "conc_lang {} L = {}" "conc_lang L {} = {}"
  by (auto simp: conc_lang_def)

lemma conc_langI: "u \<in> K \<Longrightarrow> v \<in> L \<Longrightarrow> u @ v \<in> conc_lang K L"
  by (auto simp: conc_lang_def)

lemma conc_langE: "w \<in> conc_lang K L \<Longrightarrow> (\<And>u v. w = u @ v \<Longrightarrow> u \<in> K \<Longrightarrow> v \<in> L \<Longrightarrow> P) \<Longrightarrow> P"
  by (auto simp: conc_lang_def)

text \<open>Arden's rule, for equations with the unknown on the left of the product.\<close>

lemma arden_ge:
  assumes "X = conc_lang X A \<union> B"
  shows "s \<in> star_lang A \<Longrightarrow> b \<in> B \<Longrightarrow> b @ s \<in> X"
proof (induction arbitrary: b rule: star_lang.induct)
  case star_Nil
  then show ?case using assms by auto
next
  case (star_App u v)
  from star_App.IH [OF star_App.prems] have "b @ u \<in> X" .
  from this star_App.hyps(2) have "(b @ u) @ v \<in> conc_lang X A" by (rule conc_langI)
  with assms show ?case by auto
qed

lemma arden_le:
  assumes "X = conc_lang X A \<union> B" "[] \<notin> A"
  shows "w \<in> X \<Longrightarrow> w \<in> conc_lang B (star_lang A)"
proof (induction "length w" arbitrary: w rule: less_induct)
  case less
  from less.prems assms(1) have "w \<in> conc_lang X A \<or> w \<in> B" by auto
  then show ?case
  proof
    assume "w \<in> B"
    then have "w @ [] \<in> conc_lang B (star_lang A)" by (intro conc_langI star_Nil)
    then show ?thesis by simp
  next
    assume "w \<in> conc_lang X A"
    then obtain u v where uv: "w = u @ v" "u \<in> X" "v \<in> A" by (rule conc_langE)
    with assms(2) have "v \<noteq> []" by auto
    with uv(1) have "length u < length w" by simp
    from less.hyps [OF this uv(2)] obtain b s where bs: "u = b @ s" "b \<in> B" "s \<in> star_lang A"
      by (rule conc_langE)
    from bs(3) uv(3) have "s @ v \<in> star_lang A" by (rule star_App)
    with bs(2) have "b @ (s @ v) \<in> conc_lang B (star_lang A)" by (rule conc_langI)
    with uv(1) bs(1) show ?thesis by simp
  qed
qed

lemma arden:
  assumes "X = conc_lang X A \<union> B" "[] \<notin> A"
  shows "X = conc_lang B (star_lang A)"
proof (rule set_eqI, rule iffI)
  fix w assume "w \<in> X"
  then show "w \<in> conc_lang B (star_lang A)" by (rule arden_le [OF assms])
next
  fix w assume "w \<in> conc_lang B (star_lang A)"
  then obtain b s where "w = b @ s" "b \<in> B" "s \<in> star_lang A" by (rule conc_langE)
  with arden_ge [OF assms(1)] show "w \<in> X" by simp
qed

lemma rhs_split:
  "rhs oc M m =
     rhs oc M (m(k := None)) \<union>
     (case m k of None \<Rightarrow> {} | Some x \<Rightarrow> conc_lang (reach_key oc M k) (denotes x))"
proof (rule set_eqI, rule iffI)
  fix w assume "w \<in> rhs oc M m"
  then obtain k' x where k': "m k' = Some x" "w \<in> conc_lang (reach_key oc M k') (denotes x)"
    by (auto simp: rhs_def split: option.splits)
  show "w \<in> rhs oc M (m(k := None)) \<union>
     (case m k of None \<Rightarrow> {} | Some x \<Rightarrow> conc_lang (reach_key oc M k) (denotes x))"
  proof (cases "k' = k")
    case True
    with k' show ?thesis by simp
  next
    case False
    with k' have "(m(k := None)) k' = Some x" by simp
    with k'(2) have "w \<in> rhs oc M (m(k := None))"
      unfolding rhs_def by (intro UN_I [of k']) simp_all
    then show ?thesis by simp
  qed
next
  fix w assume "w \<in> rhs oc M (m(k := None)) \<union>
     (case m k of None \<Rightarrow> {} | Some x \<Rightarrow> conc_lang (reach_key oc M k) (denotes x))"
  then consider "w \<in> rhs oc M (m(k := None))"
    | x where "m k = Some x" "w \<in> conc_lang (reach_key oc M k) (denotes x)"
    by (auto split: option.splits)
  then show "w \<in> rhs oc M m"
  proof cases
    case 1
    then obtain k' x where "(m(k := None)) k' = Some x"
      "w \<in> conc_lang (reach_key oc M k') (denotes x)"
      by (auto simp: rhs_def split: option.splits)
    then have "m k' = Some x" by (auto split: if_splits)
    with \<open>w \<in> conc_lang (reach_key oc M k') (denotes x)\<close> show ?thesis
      unfolding rhs_def by (intro UN_I [of k']) simp_all
  next
    case 2
    then show ?thesis unfolding rhs_def by (intro UN_I [of k]) simp_all
  qed
qed

lemma rhs_upd:
  "rhs oc M (m(k \<mapsto> x)) = rhs oc M (m(k := None)) \<union> conc_lang (reach_key oc M k) (denotes x)"
  using rhs_split [of oc M "m(k \<mapsto> x)" k] by simp

lemma rhs_empty [simp]: "rhs oc M Map.empty = {}"
  by (simp add: rhs_def)

lemma map_of_addTransition:
  "map_of (addTransition ls k el) =
     (map_of ls)(k \<mapsto> (case map_of ls k of Some x \<Rightarrow> Alt x el | None \<Rightarrow> el))"
  by (simp add: addTransition_def update_conv' split: option.splits)

lemma rhs_addTransition:
  "rhs oc M (map_of (addTransition ls k el)) =
     rhs oc M (map_of ls) \<union> conc_lang (reach_key oc M k) (denotes el)"
proof (cases "map_of ls k")
  case None
  then have "(map_of ls)(k := None) = map_of ls" by auto
  with None show ?thesis
    using rhs_upd [of oc M "map_of ls" k el] by (simp add: map_of_addTransition)
next
  case (Some x)
  with rhs_split [of oc M "map_of ls" k]
  have "rhs oc M (map_of ls) =
      rhs oc M ((map_of ls)(k := None)) \<union> conc_lang (reach_key oc M k) (denotes x)"
    by simp
  with Some show ?thesis
    using rhs_upd [of oc M "map_of ls" k "Alt x el"]
    by (simp add: map_of_addTransition conc_lang_Un Un_assoc)
qed

lemma distinct_addTransition:
  "distinct (map fst ls) \<Longrightarrow> distinct (map fst (addTransition ls k el))"
  by (simp add: addTransition_def distinct_update split: option.splits)

lemma keys_addTransition: "fst ` set (addTransition ls k el) = insert k (fst ` set ls)"
  by (simp add: addTransition_def keys_update split: option.splits)

text \<open>
  \<open>pattern\<close> looks every row of the map up at every symbol of the alphabet, also rows
  of keys that are not states: \<open>total_table\<close> says that every row has an entry for every
  symbol of the alphabet.
\<close>

definition total_table :: "('a, 'q) fsm \<Rightarrow> bool" where
  "total_table M \<longleftrightarrow>
     (\<forall>prev\<in>set (map fst (map_d M)). \<forall>a\<in>set (alphabet M). \<not> isl (lookup M prev a))"

definition eps_free :: "('q set option \<times> 'a lego) list \<Rightarrow> bool" where
  "eps_free ls \<longleftrightarrow> (\<forall>L x. map_of ls (Some L) = Some x \<longrightarrow> [] \<notin> denotes x)"

lemma preimage_ok:
  assumes "total_table M" "a \<in> set (alphabet M)"
  shows "preimage M a r = Inr {prev \<in> fst ` set (map_d M). delta M prev a \<in> r}"
proof -
  have "\<not> isl (lookup M prev a)" if "prev \<in> set (map fst (map_d M))" for prev
    using assms that unfolding total_table_def by blast
  then show ?thesis
    by (auto simp: preimage_def delta_def)
qed

lemma in_conc_symbol:
  "w \<in> conc_lang K {[c] |c. P c} \<longleftrightarrow> (\<exists>u c. w = u @ [c] \<and> u \<in> K \<and> P c)"
  by (auto simp: conc_lang_def)

lemma reach_step:
  assumes M: "is_fsm M"
  shows "reach oc M r =
     (if initial M \<in> r then {[]} else {}) \<union>
     (\<Union>a\<in>set (alphabet M).
        conc_lang (reach oc M {prev \<in> fst ` set (map_d M). delta M prev a \<in> r})
          {[c] |c. abstract oc M c = a})"
    (is "_ = ?E \<union> ?S")
proof (rule set_eqI)
  fix w
  let ?abs = "abstract oc M"
  let ?run = "foldl (delta M) (initial M)"
  show "w \<in> reach oc M r \<longleftrightarrow> w \<in> ?E \<union> ?S"
  proof (cases w rule: rev_cases)
    case Nil
    then show ?thesis by (auto simp: reach_def in_conc_symbol)
  next
    case (snoc u c)
    have key: "?run (map ?abs u) \<in> fst ` set (map_d M)" if "set (map ?abs u) \<subseteq> set (alphabet M)"
      using accepts_foldl(2) [OF M that] is_fsm_keys [OF M] by blast
    have "w \<in> ?S \<longleftrightarrow>
        (\<exists>a\<in>set (alphabet M). ?abs c = a \<and>
            u \<in> reach oc M {prev \<in> fst ` set (map_d M). delta M prev a \<in> r})"
      unfolding snoc by (simp add: in_conc_symbol)
    also have "\<dots> \<longleftrightarrow> ?abs c \<in> set (alphabet M) \<and> set (map ?abs u) \<subseteq> set (alphabet M) \<and>
        delta M (?run (map ?abs u)) (?abs c) \<in> r"
      using key by (auto simp: reach_def)
    also have "\<dots> \<longleftrightarrow> w \<in> reach oc M r"
      unfolding snoc by (auto simp: reach_def)
    finally show ?thesis using snoc by auto
  qed
qed

lemma denotes_symbol:
  assumes "a \<in> set (alphabet M)"
  shows "denotes (if a = oc then negate (Charclass (set (alphabet M) - {oc}) False)
                  else Charclass {a} False) = {[c] |c. abstract oc M c = a}"
  using assms by (auto simp: abstract_def)

lemma eps_free_addTransition:
  assumes "eps_free ls" "[] \<notin> denotes el"
  shows "eps_free (addTransition ls k el)"
  using assms unfolding eps_free_def map_of_addTransition
  by (auto split: option.splits if_splits)

lemma equation_symbols_ok:
  fixes M :: "('a, 'q) fsm"
  assumes tot: "total_table M"
  shows "set symbols \<subseteq> set (alphabet M) \<Longrightarrow> distinct (map fst ls) \<Longrightarrow> eps_free ls \<Longrightarrow>
    \<exists>ls'. equation_symbols oc M r symbols ls = Inr ls' \<and> distinct (map fst ls') \<and> eps_free ls' \<and>
      rhs oc M (map_of ls') =
        rhs oc M (map_of ls) \<union>
        (\<Union>a\<in>set symbols.
           conc_lang (reach oc M {prev \<in> fst ` set (map_d M). delta M prev a \<in> r})
             {[c] |c. abstract oc M c = a}) \<and>
      fst ` set ls' \<subseteq> fst ` set ls \<union> Some ` Pow (fst ` set (map_d M))"
proof (induction symbols arbitrary: ls)
  case Nil
  then show ?case by simp
next
  case (Cons a symbols)
  then have a: "a \<in> set (alphabet M)" and rest: "set symbols \<subseteq> set (alphabet M)" by simp_all
  let ?left = "{prev \<in> fst ` set (map_d M). delta M prev a \<in> r}"
  let ?el = "if a = oc then negate (Charclass (set (alphabet M) - {oc}) False)
             else Charclass {a} False"
  let ?ls = "addTransition ls (Some ?left) ?el"
  have el: "denotes ?el = {[c] |c. abstract oc M c = a}" by (rule denotes_symbol [OF a])
  then have "[] \<notin> denotes ?el" by simp
  then have ef: "eps_free ?ls" by (rule eps_free_addTransition [OF Cons.prems(3)])
  have d: "distinct (map fst ?ls)" by (rule distinct_addTransition [OF Cons.prems(2)])
  from Cons.IH [OF rest d ef] obtain ls' where
    ls': "equation_symbols oc M r symbols ?ls = Inr ls'" "distinct (map fst ls')" "eps_free ls'"
      "rhs oc M (map_of ls') =
        rhs oc M (map_of ?ls) \<union>
        (\<Union>a\<in>set symbols.
           conc_lang (reach oc M {prev \<in> fst ` set (map_d M). delta M prev a \<in> r})
             {[c] |c. abstract oc M c = a})"
      "fst ` set ls' \<subseteq> fst ` set ?ls \<union> Some ` Pow (fst ` set (map_d M))"
    by blast
  have eq: "equation_symbols oc M r (a # symbols) ls = Inr ls'"
    using ls'(1) by (simp add: preimage_ok [OF tot a] if_distrib [of "addTransition ls (Some ?left)"])
  have r: "rhs oc M (map_of ?ls) =
      rhs oc M (map_of ls) \<union> conc_lang (reach oc M ?left) {[c] |c. abstract oc M c = a}"
    by (simp only: rhs_addTransition el reach_key_def option.case)
  have k: "fst ` set ?ls \<subseteq> fst ` set ls \<union> Some ` Pow (fst ` set (map_d M))"
    unfolding keys_addTransition by auto
  show ?case
    apply (rule exI [of _ ls'])
    using eq ls'(2,3,5) k unfolding ls'(4) r by auto
qed

lemma eps_free_add_outside: "eps_free ls \<Longrightarrow> eps_free (addTransition ls None el)"
  unfolding eps_free_def map_of_addTransition by simp

text \<open>The equation that \<open>equation.__init__\<close> builds for a state-set holds.\<close>

lemma equation_init_ok:
  fixes M :: "('a, 'q) fsm"
  assumes M: "is_fsm M" and tot: "total_table M"
  shows "\<exists>e. equation_init oc str r M = Inr e \<and> right e = r \<and> sound oc M e \<and>
     fst ` set (lefts e) \<subseteq> insert None (Some ` Pow (fst ` set (map_d M)))"
proof -
  let ?K = "fst ` set (map_d M)"
  have "eps_free ([] :: ('q set option \<times> 'a lego) list)" by (simp add: eps_free_def)
  from equation_symbols_ok [OF tot, of "sort_key str (alphabet M)" "[]" oc r, OF _ _ this]
  obtain ls where
    ls: "equation_symbols oc M r (sort_key str (alphabet M)) [] = Inr ls"
      "distinct (map fst ls)" "eps_free ls"
      "rhs oc M (map_of ls) =
        (\<Union>a\<in>set (alphabet M).
           conc_lang (reach oc M {prev \<in> ?K. delta M prev a \<in> r})
             {[c] |c. abstract oc M c = a})"
      "fst ` set ls \<subseteq> Some ` Pow ?K"
    by auto
  define e :: "('a, 'q) equation" where
    "e = \<lparr>right = r, lefts = (if initial M \<in> r then addTransition ls None Emptystring else ls)\<rparr>"
  have eq: "equation_init oc str r M = Inr e"
    by (simp add: equation_init_def ls(1) e_def)
  have d: "distinct (map fst (lefts e))"
    using ls(2) by (simp add: e_def distinct_addTransition)
  have ef: "eps_free (lefts e)"
    using ls(3) by (simp add: e_def eps_free_add_outside)
  have k: "fst ` set (lefts e) \<subseteq> insert None (Some ` Pow ?K)"
    using ls(5) by (auto simp: e_def keys_addTransition)
  have "rhs oc M (map_of (lefts e)) =
      (if initial M \<in> r then {[]} else {}) \<union> rhs oc M (map_of ls)"
    by (simp add: e_def rhs_addTransition reach_key_def Un_commute)
  then have "reach oc M (right e) = rhs oc M (map_of (lefts e))"
    unfolding ls(4) using reach_step [OF M, of oc r] by (simp add: e_def)
  with d ef have "sound oc M e" by (simp add: sound_def eps_free_def)
  with eq k show ?thesis by (auto simp: e_def)
qed

text \<open>
  The list of equations while it grows: every equation holds, the state-sets of the
  equations are distinct sets of keys of the map, and the keys of \<open>lefts\<close> are such
  sets, or \<open>outside\<close>.
\<close>

definition eqs_ok :: "'a \<Rightarrow> ('a, 'q) fsm \<Rightarrow> ('a, 'q) equation list \<Rightarrow> bool" where
  "eqs_ok oc M eqs \<longleftrightarrow>
     (\<forall>e\<in>set eqs. sound oc M e \<and>
        fst ` set (lefts e) \<subseteq> insert None (Some ` Pow (fst ` set (map_d M)))) \<and>
     distinct (map right eqs) \<and> set (map right eqs) \<subseteq> Pow (fst ` set (map_d M))"

lemma discover_keys_ok:
  fixes M :: "('a, 'q) fsm"
  assumes M: "is_fsm M" and tot: "total_table M"
  shows "eqs_ok oc M eqs \<Longrightarrow> set ks \<subseteq> insert None (Some ` Pow (fst ` set (map_d M))) \<Longrightarrow>
    \<exists>new. discover_keys oc str M ks eqs = Inr (eqs @ new) \<and> eqs_ok oc M (eqs @ new) \<and>
      (\<forall>r. Some r \<in> set ks \<longrightarrow> r \<in> set (map right (eqs @ new)))"
proof (induction ks arbitrary: eqs)
  case Nil
  then show ?case by (intro exI [of _ "[]"]) simp
next
  case (Cons k ks)
  then have ks: "set ks \<subseteq> insert None (Some ` Pow (fst ` set (map_d M)))" by simp
  show ?case
  proof (cases k)
    case None
    from Cons.IH [OF Cons.prems(1) ks] None show ?thesis by simp
  next
    case (Some r)
    show ?thesis
    proof (cases "r \<in> set (map right eqs)")
      case True
      from Cons.IH [OF Cons.prems(1) ks] obtain new where
        "discover_keys oc str M ks eqs = Inr (eqs @ new)" "eqs_ok oc M (eqs @ new)"
        "\<forall>r. Some r \<in> set ks \<longrightarrow> r \<in> set (map right (eqs @ new))"
        by blast
      with Some True show ?thesis
        by (intro exI [of _ new]) auto
    next
      case False
      from equation_init_ok [OF M tot, of oc str r] obtain e where
        e: "equation_init oc str r M = Inr e" "right e = r" "sound oc M e"
          "fst ` set (lefts e) \<subseteq> insert None (Some ` Pow (fst ` set (map_d M)))"
        by blast
      from Cons.prems(2) Some have "r \<in> Pow (fst ` set (map_d M))" by auto
      with Cons.prems(1) e False have "eqs_ok oc M (eqs @ [e])"
        by (auto simp: eqs_ok_def)
      from Cons.IH [OF this ks] obtain new where
        new: "discover_keys oc str M ks (eqs @ [e]) = Inr ((eqs @ [e]) @ new)"
          "eqs_ok oc M ((eqs @ [e]) @ new)"
          "\<forall>r. Some r \<in> set ks \<longrightarrow> r \<in> set (map right ((eqs @ [e]) @ new))"
        by blast
      show ?thesis
        apply (rule exI [of _ "e # new"])
        using new e(1,2) Some False by auto
    qed
  qed
qed

text \<open>The first loop of \<open>pattern\<close> ends, with a list of equations closed under its keys.\<close>

definition keys_closed :: "nat \<Rightarrow> ('a, 'q) equation list \<Rightarrow> bool" where
  "keys_closed i eqs \<longleftrightarrow>
     (\<forall>j<i. \<forall>r. Some r \<in> fst ` set (lefts (eqs ! j)) \<longrightarrow> r \<in> set (map right eqs))"

lemma discover_loop_ok:
  fixes M :: "('a, 'q) fsm"
  assumes M: "is_fsm M" and tot: "total_table M"
  shows "eqs_ok oc M eqs \<Longrightarrow> keys_closed i eqs \<Longrightarrow> i \<le> length eqs \<Longrightarrow>
    \<exists>new. discover_loop oc str M i eqs = Some (Inr (eqs @ new)) \<and> eqs_ok oc M (eqs @ new) \<and>
      keys_closed (length (eqs @ new)) (eqs @ new)"
proof (induction "card (Pow (fst ` set (map_d M))) - i" arbitrary: i eqs rule: less_induct)
  case less
  show ?case
  proof (cases "i < length eqs")
    case False
    with less.prems have "i = length eqs" by simp
    with less.prems False show ?thesis
      by (subst discover_loop.simps) (auto intro!: exI [of _ "[]"])
  next
    case True
    let ?K = "fst ` set (map_d M)"
    from less.prems(1) True have keys:
      "set (map fst (lefts (eqs ! i))) \<subseteq> insert None (Some ` Pow ?K)"
      unfolding eqs_ok_def by (metis nth_mem set_map)
    from discover_keys_ok [OF M tot less.prems(1) keys, of str] obtain new where
      new: "discover_keys oc str M (map fst (lefts (eqs ! i))) eqs = Inr (eqs @ new)"
        "eqs_ok oc M (eqs @ new)"
        "\<forall>r. Some r \<in> set (map fst (lefts (eqs ! i))) \<longrightarrow> r \<in> set (map right (eqs @ new))"
      by blast
    have closed: "keys_closed (i + 1) (eqs @ new)"
      unfolding keys_closed_def
    proof (intro allI impI)
      fix j r assume j: "j < i + 1" and r: "Some r \<in> fst ` set (lefts ((eqs @ new) ! j))"
      from j True have nth: "(eqs @ new) ! j = eqs ! j" by (simp add: nth_append)
      show "r \<in> set (map right (eqs @ new))"
      proof (cases "j = i")
        case True
        with r nth new(3) show ?thesis by simp
      next
        case False
        with j have "j < i" by simp
        with less.prems(2) r nth have "r \<in> set (map right eqs)"
          by (auto simp: keys_closed_def)
        then show ?thesis by auto
      qed
    qed
    have "distinct (map right (eqs @ new))" "set (map right (eqs @ new)) \<subseteq> Pow ?K"
      using new(2) by (simp_all add: eqs_ok_def)
    then have "length (map right (eqs @ new)) \<le> card (Pow ?K)"
      by (metis card_mono distinct_card finite_Pow_iff finite_imageI finite_set)
    with True have le: "i + 1 \<le> length (eqs @ new)" and
      dec: "card (Pow ?K) - (i + 1) < card (Pow ?K) - i"
      by simp_all
    from less.hyps [OF dec new(2) closed le] obtain new' where
      "discover_loop oc str M (i + 1) (eqs @ new) = Some (Inr ((eqs @ new) @ new'))"
      "eqs_ok oc M ((eqs @ new) @ new')"
      "keys_closed (length ((eqs @ new) @ new')) ((eqs @ new) @ new')"
      by blast
    with True new(1) show ?thesis
      by (subst discover_loop.simps) (auto intro!: exI [of _ "new @ new'"])
  qed
qed

lemma conc_lang_UN_right: "conc_lang K (\<Union>i\<in>I. L i) = (\<Union>i\<in>I. conc_lang K (L i))"
  by (auto simp: conc_lang_def)

lemma rhs_map_Conc:
  "rhs oc M (\<lambda>k. map_option (\<lambda>y. Conc y z) (m k)) = conc_lang (rhs oc M m) (denotes z)"
proof -
  have "(case map_option (\<lambda>y. Conc y z) (m k) of None \<Rightarrow> {}
         | Some x \<Rightarrow> conc_lang (reach_key oc M k) (denotes x)) =
        conc_lang (case m k of None \<Rightarrow> {} | Some x \<Rightarrow> conc_lang (reach_key oc M k) (denotes x))
          (denotes z)" for k
    by (cases "m k") (simp_all add: conc_lang_assoc)
  then show ?thesis
    unfolding rhs_def by (simp add: conc_lang_UN)
qed

lemma not_Nil_conc: "[] \<notin> K \<Longrightarrow> [] \<notin> conc_lang K L" "[] \<notin> L \<Longrightarrow> [] \<notin> conc_lang K L"
  by (auto simp: conc_lang_def)

lemma dom_map_of_keys: "dom (map_of ls) = fst ` set ls"
  by (rule dom_map_of_conv_image_fst)

text \<open>\<open>applyLoops\<close> keeps an equation true, and removes its reference to itself.\<close>

lemma applyLoops_ok:
  fixes e :: "('a, 'q) equation"
  assumes "sound oc M e"
  shows "sound oc M (applyLoops e)" "right (applyLoops e) = right e"
    "dom (map_of (lefts (applyLoops e))) = dom (map_of (lefts e)) - {Some (right e)}"
proof -
  let ?R = "right e" and ?m = "map_of (lefts e)"
  from assms have d: "distinct (map fst (lefts e))"
    and eq: "reach oc M ?R = rhs oc M ?m"
    and ef: "\<And>L x. ?m (Some L) = Some x \<Longrightarrow> [] \<notin> denotes x"
    by (auto simp: sound_def)
  show "right (applyLoops e) = right e"
    by (simp add: applyLoops_def split: option.splits)
  show "dom (map_of (lefts (applyLoops e))) = dom (map_of (lefts e)) - {Some (right e)}"
  proof (cases "?m (Some ?R)")
    case None
    then have "Some ?R \<notin> dom ?m" by (simp add: domIff)
    with None show ?thesis by (simp add: applyLoops_def)
  next
    case (Some x)
    let ?new = "map (\<lambda>(left, y). (left, Conc y (Star x))) (AList.delete (Some ?R) (lefts e))"
    have "map_of ?new = (\<lambda>k. map_option (\<lambda>y. Conc y (Star x)) ((?m(Some ?R := None)) k))"
      by (rule ext) (simp add: map_of_map delete_conv' del: fun_upd_apply)
    then have "dom (map_of ?new) = dom ?m - {Some ?R}"
      by (auto simp: dom_def split: if_splits)
    with Some show ?thesis by (simp add: applyLoops_def)
  qed
  show "sound oc M (applyLoops e)"
  proof (cases "?m (Some ?R)")
    case None
    with assms show ?thesis by (simp add: applyLoops_def)
  next
    case (Some x)
    let ?new = "map (\<lambda>(left, y). (left, Conc y (Star x))) (AList.delete (Some ?R) (lefts e))"
    have new: "applyLoops e = e\<lparr>lefts := ?new\<rparr>"
      using Some by (simp add: applyLoops_def)
    have mnew: "map_of ?new = (\<lambda>k. map_option (\<lambda>y. Conc y (Star x)) ((?m(Some ?R := None)) k))"
      by (rule ext) (simp add: map_of_map delete_conv' del: fun_upd_apply)
    have "[] \<notin> denotes x" using ef Some by blast
    moreover have "reach oc M ?R =
        conc_lang (reach oc M ?R) (denotes x) \<union> rhs oc M (?m(Some ?R := None))"
      using rhs_split [of oc M ?m "Some ?R"] eq Some by (simp add: reach_key_def Un_commute)
    ultimately have "reach oc M ?R =
        conc_lang (rhs oc M (?m(Some ?R := None))) (star_lang (denotes x))"
      by (intro arden)
    moreover have "rhs oc M (map_of ?new) =
        conc_lang (rhs oc M (?m(Some ?R := None))) (denotes (Star x))"
      unfolding mnew by (rule rhs_map_Conc)
    ultimately have 1: "reach oc M ?R = rhs oc M (map_of ?new)"
      by simp
    have 2: "distinct (map fst ?new)"
      using d by (simp add: distinct_delete case_prod_unfold comp_def)
    have 3: "[] \<notin> denotes y'" if "map_of ?new (Some L) = Some y'" for L y'
    proof -
      from that obtain y where "?m (Some L) = Some y" "y' = Conc y (Star x)"
        unfolding mnew by (auto split: if_splits)
      with ef [of L y] show ?thesis by (simp add: not_Nil_conc)
    qed
    from 1 2 3 show ?thesis
      unfolding new sound_def by simp
  qed
qed

lemma rhs_addT:
  "rhs oc M (m(k \<mapsto> (case m k of Some x \<Rightarrow> Alt x el | None \<Rightarrow> el))) =
     rhs oc M m \<union> conc_lang (reach_key oc M k) (denotes el)"
proof (cases "m k")
  case None
  then have "m(k := None) = m" by auto
  with None show ?thesis
    using rhs_upd [of oc M m k el] by simp
next
  case (Some x)
  with rhs_split [of oc M m k]
  have "rhs oc M m = rhs oc M (m(k := None)) \<union> conc_lang (reach_key oc M k) (denotes x)"
    by simp
  with Some show ?thesis
    using rhs_upd [of oc M m k "Alt x el"]
    by (simp add: conc_lang_Un Un_assoc)
qed

lemma rhs_addTransition_del:
  assumes "l \<noteq> k"
  shows "rhs oc M ((map_of (addTransition ls l el))(k := None)) =
     rhs oc M ((map_of ls)(k := None)) \<union> conc_lang (reach_key oc M l) (denotes el)"
proof -
  let ?m = "(map_of ls)(k := None)"
  have "(map_of (addTransition ls l el))(k := None) =
      ?m(l \<mapsto> (case ?m l of Some x \<Rightarrow> Alt x el | None \<Rightarrow> el))"
    using assms by (auto simp: map_of_addTransition fun_upd_twist)
  then show ?thesis by (simp only: rhs_addT)
qed

lemma rhs_set:
  assumes "distinct (map fst ls)"
  shows "rhs oc M (map_of ls) = (\<Union>(l, x)\<in>set ls. conc_lang (reach_key oc M l) (denotes x))"
proof (rule set_eqI, rule iffI)
  fix w assume "w \<in> rhs oc M (map_of ls)"
  then obtain k x where "map_of ls k = Some x" "w \<in> conc_lang (reach_key oc M k) (denotes x)"
    by (auto simp: rhs_def split: option.splits)
  moreover from this have "(k, x) \<in> set ls" by (auto dest: map_of_SomeD)
  ultimately show "w \<in> (\<Union>(l, x)\<in>set ls. conc_lang (reach_key oc M l) (denotes x))"
    by blast
next
  fix w assume "w \<in> (\<Union>(l, x)\<in>set ls. conc_lang (reach_key oc M l) (denotes x))"
  then obtain k x where kx: "(k, x) \<in> set ls" "w \<in> conc_lang (reach_key oc M k) (denotes x)"
    by blast
  with assms have "map_of ls k = Some x" by simp
  with kx(2) show "w \<in> rhs oc M (map_of ls)"
    unfolding rhs_def by (intro UN_I [of k]) simp_all
qed

lemma eliminate_loop_ok:
  fixes ls :: "('q set option \<times> 'a lego) list"
  assumes y: "[] \<notin> denotes y"
  shows "\<forall>(l, x)\<in>set rest. l \<noteq> Some Ro \<Longrightarrow> map_of ls (Some Ro) = Some y \<Longrightarrow>
    distinct (map fst ls) \<Longrightarrow> eps_free ls \<Longrightarrow>
    \<exists>ls'. eliminate_loop Ro rest ls = Inr ls' \<and> distinct (map fst ls') \<and>
      map_of ls' (Some Ro) = Some y \<and> eps_free ls' \<and>
      rhs oc M ((map_of ls')(Some Ro := None)) =
        rhs oc M ((map_of ls)(Some Ro := None)) \<union>
        (\<Union>(l, x)\<in>set rest. conc_lang (reach_key oc M l) (conc_lang (denotes x) (denotes y))) \<and>
      dom (map_of ls') = dom (map_of ls) \<union> fst ` set rest"
proof (induction rest arbitrary: ls)
  case Nil
  then show ?case by simp
next
  case (Cons p rest)
  obtain l x where p: "p = (l, x)" by (cases p)
  with Cons.prems(1) have l: "l \<noteq> Some Ro" and rest: "\<forall>(l, x)\<in>set rest. l \<noteq> Some Ro"
    by auto
  let ?ls = "addTransition ls l (Conc x y)"
  have 1: "map_of ?ls (Some Ro) = Some y"
    using Cons.prems(2) l by (simp add: map_of_addTransition)
  have 2: "distinct (map fst ?ls)" by (rule distinct_addTransition [OF Cons.prems(3)])
  have "[] \<notin> denotes (Conc x y)" using y by (simp add: not_Nil_conc)
  then have 3: "eps_free ?ls" by (rule eps_free_addTransition [OF Cons.prems(4)])
  from Cons.IH [OF rest 1 2 3] obtain ls' where
    ls': "eliminate_loop Ro rest ?ls = Inr ls'" "distinct (map fst ls')"
      "map_of ls' (Some Ro) = Some y" "eps_free ls'"
      "rhs oc M ((map_of ls')(Some Ro := None)) =
        rhs oc M ((map_of ?ls)(Some Ro := None)) \<union>
        (\<Union>(l, x)\<in>set rest. conc_lang (reach_key oc M l) (conc_lang (denotes x) (denotes y)))"
      "dom (map_of ls') = dom (map_of ?ls) \<union> fst ` set rest"
    by blast
  have run: "eliminate_loop Ro (p # rest) ls = Inr ls'"
    using ls'(1) l Cons.prems(2) by (simp add: p)
  have r: "rhs oc M ((map_of ?ls)(Some Ro := None)) =
      rhs oc M ((map_of ls)(Some Ro := None)) \<union>
      conc_lang (reach_key oc M l) (conc_lang (denotes x) (denotes y))"
    using rhs_addTransition_del [OF l, of oc M ls "Conc x y"] by simp
  have dm: "dom (map_of ?ls) = insert l (dom (map_of ls))"
    by (simp add: dom_map_of_keys keys_addTransition)
  have R: "rhs oc M ((map_of ls')(Some Ro := None)) =
        rhs oc M ((map_of ls)(Some Ro := None)) \<union>
        (\<Union>(l, x)\<in>set (p # rest).
            conc_lang (reach_key oc M l) (conc_lang (denotes x) (denotes y)))"
    unfolding ls'(5) r by (simp add: p Un_assoc)
  have D: "dom (map_of ls') = dom (map_of ls) \<union> fst ` set (p # rest)"
    unfolding ls'(6) dm by (simp add: p)
  from run ls'(2,3,4) R D show ?case by blast
qed

text \<open>
  \<open>eliminate\<close> keeps an equation true, when the other equation is true and does not
  refer to itself, and replaces the reference to the other by what the other refers to.
\<close>

lemma eliminate_ok:
  fixes self other :: "('a, 'q) equation"
  assumes self: "sound oc M self" and other: "sound oc M other"
    and noloop: "Some (right other) \<notin> dom (map_of (lefts other))"
  shows "\<exists>s'. eliminate self other = Inr s' \<and> sound oc M s' \<and> right s' = right self \<and>
     dom (map_of (lefts s')) \<subseteq>
       (dom (map_of (lefts self)) - {Some (right other)}) \<union> dom (map_of (lefts other))"
proof (cases "map_of (lefts self) (Some (right other))")
  case None
  then have "eliminate self other = Inr self" by (simp add: eliminate_def)
  moreover from None have "Some (right other) \<notin> dom (map_of (lefts self))" by (simp add: domIff)
  ultimately show ?thesis using self by auto
next
  case (Some y)
  let ?Ro = "right other" and ?ms = "map_of (lefts self)"
  from self have ds: "distinct (map fst (lefts self))"
    and eqs: "reach oc M (right self) = rhs oc M ?ms"
    and efs: "eps_free (lefts self)"
    by (auto simp: sound_def eps_free_def)
  from other have dother: "distinct (map fst (lefts other))"
    and eqo: "reach oc M ?Ro = rhs oc M (map_of (lefts other))"
    by (auto simp: sound_def)
  from efs Some have y: "[] \<notin> denotes y" by (auto simp: eps_free_def)
  have nl: "\<forall>(l, x)\<in>set (lefts other). l \<noteq> Some ?Ro"
  proof (intro ballI, clarsimp)
    fix x assume "(Some ?Ro, x) \<in> set (lefts other)"
    then have "fst (Some ?Ro, x) \<in> fst ` set (lefts other)" by (rule imageI)
    with noloop show False by (simp add: dom_map_of_keys)
  qed
  from eliminate_loop_ok [OF y nl Some ds efs, of oc M] obtain ls' where
    ls': "eliminate_loop ?Ro (lefts other) (lefts self) = Inr ls'" "distinct (map fst ls')"
      "eps_free ls'"
      "rhs oc M ((map_of ls')(Some ?Ro := None)) =
        rhs oc M (?ms(Some ?Ro := None)) \<union>
        (\<Union>(l, x)\<in>set (lefts other).
            conc_lang (reach_key oc M l) (conc_lang (denotes x) (denotes y)))"
      "dom (map_of ls') = dom ?ms \<union> fst ` set (lefts other)"
    by blast
  define s' where "s' = self\<lparr>lefts := AList.delete (Some ?Ro) ls'\<rparr>"
  have run: "eliminate self other = Inr s'"
    using Some ls'(1) by (simp add: eliminate_def s'_def)
  have "(\<Union>(l, x)\<in>set (lefts other).
            conc_lang (reach_key oc M l) (conc_lang (denotes x) (denotes y))) =
        conc_lang (reach oc M ?Ro) (denotes y)"
    unfolding eqo rhs_set [OF dother]
    by (simp add: conc_lang_UN case_prod_unfold conc_lang_assoc)
  then have "rhs oc M ((map_of ls')(Some ?Ro := None)) =
      rhs oc M (?ms(Some ?Ro := None)) \<union> conc_lang (reach oc M ?Ro) (denotes y)"
    using ls'(4) by simp
  also have "\<dots> = rhs oc M ?ms"
    using rhs_split [of oc M ?ms "Some ?Ro"] Some by (simp add: reach_key_def)
  finally have 1: "reach oc M (right s') = rhs oc M (map_of (lefts s'))"
    using eqs by (simp add: s'_def delete_conv')
  have 2: "distinct (map fst (lefts s'))"
    using ls'(2) by (simp add: s'_def distinct_delete)
  have 3: "[] \<notin> denotes x" if "map_of (lefts s') (Some L) = Some x" for L x
    using that ls'(3) by (auto simp: s'_def delete_conv' eps_free_def split: if_splits)
  have 4: "dom (map_of (lefts s')) \<subseteq>
       (dom ?ms - {Some ?Ro}) \<union> dom (map_of (lefts other))"
    using ls'(5) by (auto simp: s'_def delete_conv' dom_map_of_keys split: if_splits)
  from 1 2 3 have "sound oc M s'" unfolding sound_def by blast
  with run 4 show ?thesis by (auto simp: s'_def)
qed

lemma eliminate_into_ok:
  fixes eqs :: "('a, 'q) equation list"
  shows "i < length eqs \<Longrightarrow> sound oc M (eqs ! i) \<Longrightarrow>
    Some (right (eqs ! i)) \<notin> dom (map_of (lefts (eqs ! i))) \<Longrightarrow>
    set js \<subseteq> {..<i} \<Longrightarrow> distinct js \<Longrightarrow> (\<forall>j\<in>set js. sound oc M (eqs ! j)) \<Longrightarrow>
    \<exists>eqs'. eliminate_into i js eqs = Inr eqs' \<and> length eqs' = length eqs \<and>
      map right eqs' = map right eqs \<and>
      (\<forall>j\<in>set js. sound oc M (eqs' ! j) \<and>
         dom (map_of (lefts (eqs' ! j))) \<subseteq>
           (dom (map_of (lefts (eqs ! j))) - {Some (right (eqs ! i))}) \<union>
           dom (map_of (lefts (eqs ! i)))) \<and>
      (\<forall>j<length eqs. j \<notin> set js \<longrightarrow> eqs' ! j = eqs ! j)"
proof (induction js arbitrary: eqs)
  case Nil
  then show ?case by simp
next
  case (Cons j js)
  from Cons.prems have j: "j < i" "j \<notin> set js" and js: "set js \<subseteq> {..<i}" "distinct js"
    by auto
  from Cons.prems(6) have sj: "sound oc M (eqs ! j)" by simp
  from eliminate_ok [OF sj Cons.prems(2,3)] obtain e where
    e: "eliminate (eqs ! j) (eqs ! i) = Inr e" "sound oc M e" "right e = right (eqs ! j)"
      "dom (map_of (lefts e)) \<subseteq>
         (dom (map_of (lefts (eqs ! j))) - {Some (right (eqs ! i))}) \<union>
         dom (map_of (lefts (eqs ! i)))"
    by blast
  let ?eqs = "eqs[j := e]"
  have len: "length ?eqs = length eqs" by simp
  have jl: "j < length eqs" using j(1) Cons.prems(1) by simp
  have nth_i: "?eqs ! i = eqs ! i" using j(1) by simp
  have nth_o: "?eqs ! k = eqs ! k" if "k \<in> set js" for k
    using that j(2) by (metis nth_list_update_neq)
  have p1: "i < length ?eqs" using Cons.prems(1) by simp
  have p2: "sound oc M (?eqs ! i)" using Cons.prems(2) nth_i by simp
  have p3: "Some (right (?eqs ! i)) \<notin> dom (map_of (lefts (?eqs ! i)))"
    using Cons.prems(3) nth_i by simp
  have p6: "\<forall>k\<in>set js. sound oc M (?eqs ! k)"
    using Cons.prems(6) nth_o by simp
  from Cons.IH [OF p1 p2 p3 js p6] obtain eqs' where
    r: "eliminate_into i js ?eqs = Inr eqs'" "length eqs' = length ?eqs"
      "map right eqs' = map right ?eqs"
      "\<forall>k\<in>set js. sound oc M (eqs' ! k) \<and>
         dom (map_of (lefts (eqs' ! k))) \<subseteq>
           (dom (map_of (lefts (?eqs ! k))) - {Some (right (?eqs ! i))}) \<union>
           dom (map_of (lefts (?eqs ! i)))"
      "\<forall>k<length ?eqs. k \<notin> set js \<longrightarrow> eqs' ! k = ?eqs ! k"
    by blast
  have run: "eliminate_into i (j # js) eqs = Inr eqs'"
    using e(1) r(1) by simp
  have rights: "map right eqs' = map right eqs"
    using r(3) e(3) jl by (simp add: map_update list_update_same_conv)
  have atj: "eqs' ! j = e" using r(5) jl j(2) by simp
  have all: "sound oc M (eqs' ! k) \<and>
         dom (map_of (lefts (eqs' ! k))) \<subseteq>
           (dom (map_of (lefts (eqs ! k))) - {Some (right (eqs ! i))}) \<union>
           dom (map_of (lefts (eqs ! i)))" if "k \<in> set (j # js)" for k
  proof (cases "k = j")
    case True
    with atj e(2,4) show ?thesis by simp
  next
    case False
    with that have k: "k \<in> set js" by simp
    with r(4) have "sound oc M (eqs' ! k) \<and>
         dom (map_of (lefts (eqs' ! k))) \<subseteq>
           (dom (map_of (lefts (?eqs ! k))) - {Some (right (?eqs ! i))}) \<union>
           dom (map_of (lefts (?eqs ! i)))"
      by blast
    then show ?thesis unfolding nth_o [OF k] nth_i .
  qed
  have same: "eqs' ! k = eqs ! k" if "k < length eqs" "k \<notin> set (j # js)" for k
    using r(5) that by simp
  from run r(2) rights all same show ?case by (simp add: len)
qed

text \<open>
  The second loop of \<open>pattern\<close>, with the equations up to \<open>b\<close> still to visit: the
  equations before \<open>b\<close> hold, and refer to state-sets of equations before \<open>b\<close> only.
\<close>

definition bf_inv :: "'a \<Rightarrow> ('a, 'q) fsm \<Rightarrow> nat \<Rightarrow> ('a, 'q) equation list \<Rightarrow> bool" where
  "bf_inv oc M b eqs \<longleftrightarrow>
     b \<le> length eqs \<and>
     (\<forall>j<b. sound oc M (eqs ! j) \<and>
        dom (map_of (lefts (eqs ! j))) \<subseteq> insert None (Some ` set (take b (map right eqs))))"

lemma backfill_ok:
  fixes eqs :: "('a, 'q) equation list"
  shows "bf_inv oc M (Suc b) eqs \<Longrightarrow>
    \<exists>eqs'. backfill (rev [0..<Suc b]) eqs = Inr eqs' \<and> sound oc M (eqs' ! 0) \<and>
      right (eqs' ! 0) = right (eqs ! 0) \<and> dom (map_of (lefts (eqs' ! 0))) \<subseteq> {None}"
proof (induction b arbitrary: eqs)
  case 0
  then have s: "sound oc M (eqs ! 0)" "0 < length eqs"
    "dom (map_of (lefts (eqs ! 0))) \<subseteq> insert None (Some ` set (take 1 (map right eqs)))"
    by (auto simp: bf_inv_def)
  from s(2) have "take 1 (map right eqs) = [right (eqs ! 0)]"
    by (cases eqs) simp_all
  with s(3) applyLoops_ok(3) [OF s(1)]
  have "dom (map_of (lefts (applyLoops (eqs ! 0)))) \<subseteq> {None}" by auto
  with applyLoops_ok(1,2) [OF s(1)] s(2) show ?case by simp
next
  case (Suc b)
  let ?i = "Suc b"
  from Suc.prems have i: "?i < length eqs"
    and inv: "\<And>j. j < Suc ?i \<Longrightarrow> sound oc M (eqs ! j) \<and>
        dom (map_of (lefts (eqs ! j))) \<subseteq> insert None (Some ` set (take (Suc ?i) (map right eqs)))"
    by (auto simp: bf_inv_def)
  have li: "?i < length (map right eqs)" using i by simp
  have tk: "set (take (Suc ?i) (map right eqs)) = insert (right (eqs ! ?i)) (set (take ?i (map right eqs)))"
    unfolding take_Suc_conv_app_nth [OF li] using i by simp
  let ?eqs = "eqs[?i := applyLoops (eqs ! ?i)]"
  have si: "sound oc M (eqs ! ?i)" using inv [of ?i] by simp
  have nth_i: "?eqs ! ?i = applyLoops (eqs ! ?i)" using i by simp
  have p1: "?i < length ?eqs" using i by simp
  have p2: "sound oc M (?eqs ! ?i)" unfolding nth_i by (rule applyLoops_ok(1) [OF si])
  have ri: "right (?eqs ! ?i) = right (eqs ! ?i)"
    unfolding nth_i by (rule applyLoops_ok(2) [OF si])
  have di: "dom (map_of (lefts (?eqs ! ?i))) \<subseteq> insert None (Some ` set (take ?i (map right eqs)))"
    unfolding nth_i applyLoops_ok(3) [OF si] using inv [of ?i] tk by auto
  have p3: "Some (right (?eqs ! ?i)) \<notin> dom (map_of (lefts (?eqs ! ?i)))"
    unfolding ri unfolding nth_i applyLoops_ok(3) [OF si] by simp
  have p4: "set (rev [0..<?i]) \<subseteq> {..<?i}" "distinct (rev [0..<?i])" by auto
  have p6: "\<forall>j\<in>set (rev [0..<?i]). sound oc M (?eqs ! j)"
    using inv by simp
  from eliminate_into_ok [OF p1 p2 p3 p4 p6] obtain eqs2 where
    e2: "eliminate_into ?i (rev [0..<?i]) ?eqs = Inr eqs2" "length eqs2 = length ?eqs"
      "map right eqs2 = map right ?eqs"
      "\<forall>j\<in>set (rev [0..<?i]). sound oc M (eqs2 ! j) \<and>
         dom (map_of (lefts (eqs2 ! j))) \<subseteq>
           (dom (map_of (lefts (?eqs ! j))) - {Some (right (?eqs ! ?i))}) \<union>
           dom (map_of (lefts (?eqs ! ?i)))"
    by blast
  have rights: "map right eqs2 = map right eqs"
    using e2(3) i applyLoops_ok(2) [OF si] by (simp add: map_update list_update_same_conv)
  have e2j: "sound oc M (eqs2 ! j) \<and>
         dom (map_of (lefts (eqs2 ! j))) \<subseteq>
           (dom (map_of (lefts (?eqs ! j))) - {Some (right (?eqs ! ?i))}) \<union>
           dom (map_of (lefts (?eqs ! ?i)))" if "j < ?i" for j
  proof -
    from that have "j \<in> set (rev [0..<?i])" by auto
    with e2(4) show ?thesis by blast
  qed
  have "bf_inv oc M ?i eqs2"
    unfolding bf_inv_def
  proof (intro conjI allI impI)
    show "?i \<le> length eqs2" using e2(2) i by simp
  next
    fix j assume j: "j < ?i"
    with e2j show "sound oc M (eqs2 ! j)" by blast
    from j have old: "dom (map_of (lefts (?eqs ! j))) \<subseteq>
        insert None (Some ` set (take (Suc ?i) (map right eqs)))"
      using inv [of j] by simp
    then have old': "dom (map_of (lefts (?eqs ! j))) \<subseteq>
        insert None (insert (Some (right (eqs ! ?i))) (Some ` set (take ?i (map right eqs))))"
      unfolding tk by simp
    from j e2j have step: "dom (map_of (lefts (eqs2 ! j))) \<subseteq>
           (dom (map_of (lefts (?eqs ! j))) - {Some (right (?eqs ! ?i))}) \<union>
           dom (map_of (lefts (?eqs ! ?i)))"
      by blast
    show "dom (map_of (lefts (eqs2 ! j))) \<subseteq>
        insert None (Some ` set (take ?i (map right eqs2)))"
      unfolding rights
    proof
      fix k assume "k \<in> dom (map_of (lefts (eqs2 ! j)))"
      with step have "(k \<in> dom (map_of (lefts (?eqs ! j))) \<and> k \<noteq> Some (right (?eqs ! ?i))) \<or>
          k \<in> dom (map_of (lefts (?eqs ! ?i)))"
        by blast
      then show "k \<in> insert None (Some ` set (take ?i (map right eqs)))"
      proof
        assume "k \<in> dom (map_of (lefts (?eqs ! j))) \<and> k \<noteq> Some (right (?eqs ! ?i))"
        with old' show ?thesis unfolding ri by blast
      next
        assume "k \<in> dom (map_of (lefts (?eqs ! ?i)))"
        with di show ?thesis by blast
      qed
    qed
  qed
  from Suc.IH [OF this] obtain eqs' where
    r: "backfill (rev [0..<?i]) eqs2 = Inr eqs'" "sound oc M (eqs' ! 0)"
      "right (eqs' ! 0) = right (eqs2 ! 0)" "dom (map_of (lefts (eqs' ! 0))) \<subseteq> {None}"
    by blast
  have "0 < length eqs" "0 < length eqs2" using i e2(2) by auto
  then have "right (eqs2 ! 0) = map right eqs2 ! 0" "right (eqs ! 0) = map right eqs ! 0"
    by simp_all
  then have "right (eqs2 ! 0) = right (eqs ! 0)"
    by (simp only: rights)
  with r e2(1) show ?case by simp
qed

lemma rhs_outside_only:
  assumes "dom m \<subseteq> {None}"
  shows "rhs oc M m = (case m None of None \<Rightarrow> {} | Some x \<Rightarrow> denotes x)"
proof -
  have "m(None := None) = Map.empty"
  proof (rule ext)
    fix k show "(m(None := None)) k = None"
      using assms by (cases k) (auto simp: dom_def)
  qed
  with rhs_split [of oc M m None] show ?thesis
    by (simp add: reach_key_def split: option.splits)
qed

lemma keys_closedD:
  "keys_closed i eqs \<Longrightarrow> j < i \<Longrightarrow> Some r \<in> fst ` set (lefts (eqs ! j)) \<Longrightarrow>
     r \<in> set (map right eqs)"
  by (simp add: keys_closed_def)

text \<open>
  \<open>pattern\<close> returns, without raising, an expression from which exactly those sequences
  are derivable that lead the automaton into a final state (a symbol outside the
  alphabet read as the wildcard).
\<close>

lemma pattern_ok:
  fixes M :: "('a, 'q) fsm"
  assumes M: "is_fsm M" and tot: "total_table M"
  shows "\<exists>x. pattern oc str M = Some (Inr x) \<and> denotes x = reach oc M (set (finals M))"
proof -
  let ?K = "fst ` set (map_d M)"
  from equation_init_ok [OF M tot, of oc str "set (finals M)"] obtain first where
    first: "equation_init oc str (set (finals M)) M = Inr first" "right first = set (finals M)"
      "sound oc M first" "fst ` set (lefts first) \<subseteq> insert None (Some ` Pow ?K)"
    by blast
  have "set (finals M) \<subseteq> ?K"
    using M is_fsm_keys [OF M] by (auto simp: is_fsm_iff)
  with first have ok: "eqs_ok oc M [first]" by (simp add: eqs_ok_def)
  have cl: "keys_closed 0 [first]" by (simp add: keys_closed_def)
  from discover_loop_ok [OF M tot ok cl, of str] obtain new where
    new: "discover_loop oc str M 0 [first] = Some (Inr ([first] @ new))"
      "eqs_ok oc M ([first] @ new)"
      "keys_closed (length ([first] @ new)) ([first] @ new)"
    by auto
  define eqs where "eqs = [first] @ new"
  have len: "length eqs = Suc (length new)" by (simp add: eqs_def)
  have ok': "eqs_ok oc M eqs" using new(2) by (simp only: eqs_def)
  have kc: "keys_closed (length eqs) eqs" using new(3) by (simp only: eqs_def)
  have dl: "discover_loop oc str M 0 [first] = Some (Inr eqs)" using new(1) by (simp only: eqs_def)
  have each: "sound oc M e \<and> fst ` set (lefts e) \<subseteq> insert None (Some ` Pow ?K)"
    if "e \<in> set eqs" for e
    using ok' that by (simp add: eqs_ok_def)
  have inv: "bf_inv oc M (Suc (length new)) eqs"
    unfolding bf_inv_def
  proof (intro conjI allI impI)
    show "Suc (length new) \<le> length eqs" by (simp add: len)
  next
    fix j assume j: "j < Suc (length new)"
    then have jl: "j < length eqs" by (simp add: len)
    then have mem: "eqs ! j \<in> set eqs" by simp
    from each [OF mem] show "sound oc M (eqs ! j)" by (rule conjunct1)
    show "dom (map_of (lefts (eqs ! j))) \<subseteq>
        insert None (Some ` set (take (Suc (length new)) (map right eqs)))"
    proof
      fix k assume "k \<in> dom (map_of (lefts (eqs ! j)))"
      then have k: "k \<in> fst ` set (lefts (eqs ! j))" by (simp add: dom_map_of_keys)
      show "k \<in> insert None (Some ` set (take (Suc (length new)) (map right eqs)))"
      proof (cases k)
        case None
        then show ?thesis by simp
      next
        case (Some r)
        with k have "Some r \<in> fst ` set (lefts (eqs ! j))" by simp
        from keys_closedD [OF kc jl this] have "r \<in> set (map right eqs)" .
        then have "r \<in> set (take (Suc (length new)) (map right eqs))"
          by (simp add: len)
        with Some show ?thesis by simp
      qed
    qed
  qed
  from backfill_ok [OF inv] obtain eqs' where
    r: "backfill (rev [0..<Suc (length new)]) eqs = Inr eqs'" "sound oc M (eqs' ! 0)"
      "right (eqs' ! 0) = right (eqs ! 0)" "dom (map_of (lefts (eqs' ! 0))) \<subseteq> {None}"
    by blast
  have r0: "right (eqs' ! 0) = set (finals M)"
    using r(3) first(2) by (simp add: eqs_def)
  from r(2) have "reach oc M (set (finals M)) = rhs oc M (map_of (lefts (eqs' ! 0)))"
    by (simp add: sound_def r0)
  also have "\<dots> = (case map_of (lefts (eqs' ! 0)) None of None \<Rightarrow> {} | Some x \<Rightarrow> denotes x)"
    by (rule rhs_outside_only [OF r(4)])
  finally have den: "reach oc M (set (finals M)) =
      (case map_of (lefts (eqs' ! 0)) None of None \<Rightarrow> {} | Some x \<Rightarrow> denotes x)" .
  have run: "pattern oc str M =
      (case map_of (lefts (eqs' ! 0)) None of
         Some x \<Rightarrow> Some (Inr x) | None \<Rightarrow> Some (Inr Nothing))"
    using r(1) by (simp add: pattern_def first(1) dl len)
  show ?thesis
  proof (cases "map_of (lefts (eqs' ! 0)) None")
    case None
    with run den show ?thesis by simp
  next
    case (Some x)
    with run den show ?thesis by simp
  qed
qed

lemma reach_finals:
  assumes "is_fsm M"
  shows "w \<in> reach oc M (set (finals M)) \<longleftrightarrow> map (abstract oc M) w \<in> lang M"
proof -
  let ?v = "map (abstract oc M) w"
  have "accepts M ?v = Inr (foldl (delta M) (initial M) ?v \<in> set (finals M))"
    if "set ?v \<subseteq> set (alphabet M)"
    using accepts_foldl(1) [OF assms that] .
  then show ?thesis
    by (auto simp: reach_def lang_def)
qed

lemma abstract_alphabet:
  "set w \<subseteq> set (alphabet M) \<Longrightarrow> map (abstract oc M) w = w"
  by (induction w) (auto simp: abstract_def)

lemma abstract_no_wildcard:
  assumes "oc \<notin> set (alphabet M)" "set (map (abstract oc M) w) \<subseteq> set (alphabet M)"
  shows "set w \<subseteq> set (alphabet M)"
proof
  fix c assume "c \<in> set w"
  with assms(2) have "abstract oc M c \<in> set (alphabet M)" by auto
  with assms(1) show "c \<in> set (alphabet M)"
    by (auto simp: abstract_def split: if_splits)
qed

section \<open>The claim about \<open>pattern\<close>\<close>

text \<open>
  Three automata. \<open>recursion_test\<close> is the automaton of the unit test "Catch a
  recursion error", whose pattern is \<open>0[01]\<close>. \<open>junk_row\<close> is accepted by the
  constructor and has a row, for the key 1 that is not a state, without an entry for
  \<open>a\<close>. \<open>any_one\<close> has the wildcard (here the character \<open>?\<close>) in its alphabet and
  accepts the sequences of one symbol.
\<close>

definition recursion_test :: "(char, nat) fsm" where
  "recursion_test = \<lparr>alphabet = ''01'', states = [0, 1, 2, 3], initial = 3, finals = [1],
     map_d = [(0, [(CHR ''0'', 1), (CHR ''1'', 1)]),
              (1, [(CHR ''0'', 2), (CHR ''1'', 2)]),
              (2, [(CHR ''0'', 2), (CHR ''1'', 2)]),
              (3, [(CHR ''0'', 0), (CHR ''1'', 2)])]\<rparr>"

definition junk_row :: "(char, nat) fsm" where
  "junk_row = \<lparr>alphabet = ''a'', states = [0], initial = 0, finals = [0],
     map_d = [(0, [(CHR ''a'', 0)]), (1, [])]\<rparr>"

definition any_one :: "(char, nat) fsm" where
  "any_one = \<lparr>alphabet = ''a?'', states = [0, 1, 2], initial = 0, finals = [1],
     map_d = [(0, [(CHR ''a'', 1), (CHR ''?'', 1)]),
              (1, [(CHR ''a'', 2), (CHR ''?'', 2)]),
              (2, [(CHR ''a'', 2), (CHR ''?'', 2)])]\<rparr>"

text \<open>
  C1, as stated, fails twice. On the validated automaton \<open>junk_row\<close>, \<open>pattern\<close> raises
  KeyError (at \<open>fsm.map[prev][symbol]\<close> for the row of the key 1) and yields no
  expression. On \<open>any_one\<close> it yields the alternation of the complement of \<open>{a}\<close> and
  the class \<open>{a}\<close>, from which the sequence \<open>z\<close> is derivable, while \<open>accepts\<close> raises
  KeyError on \<open>z\<close>, which is not in the alphabet.
\<close>

theorem pattern_counterexample:
  "is_fsm junk_row \<and> pattern (CHR ''?'') str_char junk_row = Some (Inl KeyError) \<and>
   is_fsm any_one \<and>
   pattern (CHR ''?'') str_char any_one =
     Some (Inr (Conc Emptystring (Alt (Charclass {CHR ''a''} True) (Charclass {CHR ''a''} False)))) \<and>
   ''z'' \<in> denotes (Conc Emptystring (Alt (Charclass {CHR ''a''} True) (Charclass {CHR ''a''} False))) \<and>
   accepts any_one ''z'' = Inl KeyError"
proof -
  have 1: "is_fsm junk_row" "pattern (CHR ''?'') str_char junk_row = Some (Inl KeyError)"
    by code_simp+
  have 2: "is_fsm any_one" "pattern (CHR ''?'') str_char any_one =
     Some (Inr (Conc Emptystring (Alt (Charclass {CHR ''a''} True) (Charclass {CHR ''a''} False))))"
    by code_simp+
  have 3: "''z'' \<in> denotes (Conc Emptystring (Alt (Charclass {CHR ''a''} True) (Charclass {CHR ''a''} False)))"
    by simp
  have 4: "accepts any_one ''z'' = Inl KeyError" by code_simp
  from 1 2 3 4 show ?thesis by blast
qed

text \<open>
  C1, amended. For a validated automaton \<open>A\<close> whose map has in every row an entry for
  every symbol of the alphabet, \<open>pattern\<close> returns an expression without raising, and a
  sequence is derivable from the expression exactly when \<open>A\<close> accepts it with every
  symbol outside the alphabet replaced by the wildcard. So a sequence over the alphabet
  is derivable exactly when \<open>A\<close> accepts it, and when the wildcard is not in the
  alphabet the derivable sequences are exactly the sequences \<open>A\<close> accepts.
\<close>

theorem pattern_denotes:
  fixes A :: "('a, 'q) fsm"
  assumes "is_fsm A" "total_table A"
  shows "\<exists>x. pattern otherchars str A = Some (Inr x) \<and>
     (\<forall>w. w \<in> denotes x \<longleftrightarrow> map (abstract otherchars A) w \<in> lang A) \<and>
     (\<forall>w. set w \<subseteq> set (alphabet A) \<longrightarrow> (w \<in> denotes x \<longleftrightarrow> accepts A w = Inr True)) \<and>
     (otherchars \<notin> set (alphabet A) \<longrightarrow> denotes x = lang A)"
proof -
  from pattern_ok [OF assms, of otherchars str] obtain x where
    x: "pattern otherchars str A = Some (Inr x)"
      "denotes x = reach otherchars A (set (finals A))"
    by blast
  have a: "w \<in> denotes x \<longleftrightarrow> map (abstract otherchars A) w \<in> lang A" for w
    unfolding x(2) by (rule reach_finals [OF assms(1)])
  have b: "w \<in> denotes x \<longleftrightarrow> accepts A w = Inr True" if "set w \<subseteq> set (alphabet A)" for w
    unfolding a abstract_alphabet [OF that] using that by (simp add: lang_def)
  have c: "denotes x = lang A" if oc: "otherchars \<notin> set (alphabet A)"
  proof (rule set_eqI)
    fix w
    show "w \<in> denotes x \<longleftrightarrow> w \<in> lang A"
    proof
      assume w: "w \<in> denotes x"
      then have "set (map (abstract otherchars A) w) \<subseteq> set (alphabet A)"
        unfolding a by (simp add: lang_def)
      from abstract_no_wildcard [OF oc this] have "set w \<subseteq> set (alphabet A)" .
      with w b show "w \<in> lang A" by (simp add: lang_def)
    next
      assume "w \<in> lang A"
      then show "w \<in> denotes x" using b by (simp add: lang_def)
    qed
  qed
  from x(1) a b c show ?thesis by blast
qed

theorem pattern_denotes_witness:
  "is_fsm recursion_test \<and> total_table recursion_test \<and>
   (\<exists>x. pattern (CHR ''?'') str_char recursion_test = Some (Inr x) \<and>
      ''00'' \<in> denotes x \<and> ''01'' \<in> denotes x \<and> ''0'' \<notin> denotes x \<and> ''10'' \<notin> denotes x)"
proof -
  have h: "is_fsm recursion_test" "total_table recursion_test" by code_simp+
  have acc: "accepts recursion_test ''00'' = Inr True" "accepts recursion_test ''01'' = Inr True"
    "accepts recursion_test ''0'' = Inr False" "accepts recursion_test ''10'' = Inr False"
    by code_simp+
  from pattern_denotes [OF h, of "CHR ''?''" str_char] obtain x where
    x: "pattern (CHR ''?'') str_char recursion_test = Some (Inr x)"
      "\<forall>w. set w \<subseteq> set (alphabet recursion_test) \<longrightarrow>
          (w \<in> denotes x \<longleftrightarrow> accepts recursion_test w = Inr True)"
    by blast
  have al: "alphabet recursion_test = ''01''" by (simp add: recursion_test_def)
  from x(2) have "''00'' \<in> denotes x \<longleftrightarrow> accepts recursion_test ''00'' = Inr True"
    "''01'' \<in> denotes x \<longleftrightarrow> accepts recursion_test ''01'' = Inr True"
    "''0'' \<in> denotes x \<longleftrightarrow> accepts recursion_test ''0'' = Inr True"
    "''10'' \<in> denotes x \<longleftrightarrow> accepts recursion_test ''10'' = Inr True"
    unfolding al by simp_all
  with acc x(1) h show ?thesis by auto
qed

section \<open>The order of the alphabet\<close>

text \<open>
  The alphabet is a set; the list that stands for it here is the order in which the set
  happens to be iterated. \<open>sorted(alphabet, key=str)\<close> does not depend on that order
  when no two symbols have the same \<open>str\<close>.
\<close>

lemma sort_key_perm:
  assumes "set al' = set al" "distinct al" "distinct al'" "inj_on str (set al)"
  shows "sort_key str al' = sort_key str al"
proof (rule sort_key_inj_key_eq)
  from assms(1-3) have "mset al' = mset al"
    by (simp add: set_eq_iff_mset_eq_distinct)
  then show "mset al' = mset (sort_key str al)" by simp
  show "inj_on str (set al')" using assms(1,4) by simp
  show "sorted (map str (sort_key str al))" by simp
qed

lemma lookup_alphabet [simp]: "lookup (M\<lparr>alphabet := al'\<rparr>) = lookup M"
  by (rule ext)+ (simp add: lookup_def)

lemma delta_alphabet [simp]: "delta (M\<lparr>alphabet := al'\<rparr>) = delta M"
  by (rule ext)+ (simp add: delta_def)

lemma is_fsm_alphabet:
  "set al' = set (alphabet M) \<Longrightarrow> is_fsm (M\<lparr>alphabet := al'\<rparr>) \<longleftrightarrow> is_fsm M"
  by (simp add: is_fsm_iff table_ok_def)

lemma closed_table_alphabet: "closed_table (M\<lparr>alphabet := al'\<rparr>) \<longleftrightarrow> closed_table M"
  by (simp add: closed_table_def)

lemma new_row_alphabet [simp]: "new_row ren (M\<lparr>alphabet := al'\<rparr>) = new_row ren M"
  by (rule ext) (simp add: new_row_def)

lemma equivalent_alphabet:
  assumes "is_fsm M" "set al' = set (alphabet M)" "s \<in> set (states M)" "t \<in> set (states M)"
  shows "equivalent (M\<lparr>alphabet := al'\<rparr>) s t = equivalent M s t"
proof -
  have "is_fsm (M\<lparr>alphabet := al'\<rparr>)" using assms(1,2) by (simp add: is_fsm_alphabet)
  from equivalent_eq [OF this, of s t] equivalent_eq [OF assms(1,3,4)] assms(2,3,4)
  show ?thesis by simp
qed

lemma replace_alphabet:
  fixes M :: "('a, 'q) fsm"
  assumes M: "is_fsm M" "closed_table M" and al: "set al' = set (alphabet M)"
  shows "\<exists>N. replace M this that = Inr N \<and>
     replace (M\<lparr>alphabet := al'\<rparr>) this that = Inr (N\<lparr>alphabet := al'\<rparr>)"
proof -
  let ?M = "M\<lparr>alphabet := al'\<rparr>"
  have M': "is_fsm ?M" "closed_table ?M"
    using M al by (simp_all add: is_fsm_alphabet closed_table_alphabet)
  from replace_ok [OF M, of this that] obtain N where N: "replace M this that = Inr N" by blast
  from replace_ok [OF M', of this that] obtain N' where N': "replace ?M this that = Inr N'"
    by blast
  from N N' have "N' = N\<lparr>alphabet := al'\<rparr>"
    unfolding replace_eq [OF M] replace_eq [OF M'] fsm_init_Inr_iff by simp
  with N N' show ?thesis by simp
qed

lemma trymerge_that_alphabet:
  fixes M :: "('a, 'q) fsm"
  assumes M: "is_fsm M" "closed_table M" and al: "set al' = set (alphabet M)"
    and th: "this \<in> set (states M)"
  shows "set ys \<subseteq> set (states M) \<Longrightarrow>
    trymerge_that (M\<lparr>alphabet := al'\<rparr>) this ys =
      map_sum id (map_option (\<lambda>N. N\<lparr>alphabet := al'\<rparr>)) (trymerge_that M this ys)"
proof (induction ys)
  case Nil
  show ?case by simp
next
  case (Cons that ys)
  then have mem: "that \<in> set (states M)" and rest: "set ys \<subseteq> set (states M)" by simp_all
  obtain b where b: "equivalent M this that = Inr b"
    using equivalent_eq [OF M(1) th mem] by blast
  then have b': "equivalent (M\<lparr>alphabet := al'\<rparr>) this that = Inr b"
    by (simp add: equivalent_alphabet [OF M(1) al th mem])
  from replace_alphabet [OF M al, of this that] obtain N where
    N: "replace M this that = Inr N"
      "replace (M\<lparr>alphabet := al'\<rparr>) this that = Inr (N\<lparr>alphabet := al'\<rparr>)"
    by blast
  show ?case
    using Cons.IH [OF rest] by (simp add: b b' N)
qed

lemma trymerge_this_alphabet:
  fixes M :: "('a, 'q) fsm"
  assumes M: "is_fsm M" "closed_table M" and al: "set al' = set (alphabet M)"
  shows "set xs \<subseteq> set (states M) \<Longrightarrow>
    trymerge_this (M\<lparr>alphabet := al'\<rparr>) xs =
      map_sum id (map_option (\<lambda>N. N\<lparr>alphabet := al'\<rparr>)) (trymerge_this M xs)"
proof (induction xs)
  case Nil
  show ?case by simp
next
  case (Cons this xs)
  then have mem: "this \<in> set (states M)" and rest: "set xs \<subseteq> set (states M)" by simp_all
  note inner = trymerge_that_alphabet [OF M al mem, of "states M"]
  show ?case
  proof (cases "trymerge_that M this (states M)")
    case (Inl e)
    with inner show ?thesis by simp
  next
    case (Inr r)
    with inner Cons.IH [OF rest] show ?thesis by (cases r) simp_all
  qed
qed

lemma trymerge_alphabet:
  fixes M :: "('a, 'q) fsm"
  assumes M: "is_fsm M" "closed_table M" and al: "set al' = set (alphabet M)"
  shows "trymerge (M\<lparr>alphabet := al'\<rparr>) =
      map_sum id (map_prod id (\<lambda>N. N\<lparr>alphabet := al'\<rparr>)) (trymerge M)"
proof (cases "trymerge_this M (states M)")
  case (Inl e)
  with trymerge_this_alphabet [OF M al, of "states M"] show ?thesis
    by (simp add: trymerge_def)
next
  case (Inr r)
  with trymerge_this_alphabet [OF M al, of "states M"] show ?thesis
    by (cases r) (simp_all add: trymerge_def)
qed

text \<open>\<open>automerge\<close> does the same merges whatever the order of the alphabet.\<close>

lemma automerge_alphabet:
  fixes M :: "('a, 'q) fsm"
  shows "is_fsm M \<Longrightarrow> closed_table M \<Longrightarrow> set al' = set (alphabet M) \<Longrightarrow>
    \<exists>N. automerge M = Inr N \<and> automerge (M\<lparr>alphabet := al'\<rparr>) = Inr (N\<lparr>alphabet := al'\<rparr>)"
proof (induction M rule: automerge.induct)
  case (1 M)
  note tm' = trymerge_alphabet [OF "1.prems"]
  from trymerge_total [OF "1.prems"(1,2)] show ?case
  proof (elim disjE conjE exE)
    assume tm: "trymerge M = Inr (False, M)"
    then have "automerge M = Inr M" by simp
    moreover from tm tm' have "automerge (M\<lparr>alphabet := al'\<rparr>) = Inr (M\<lparr>alphabet := al'\<rparr>)"
      by (subst automerge.simps) simp
    ultimately show ?thesis by blast
  next
    fix N assume tm: "trymerge M = Inr (True, N)"
    from trymerge_True [OF tm] obtain this that where
      tt: "replace M this that = Inr N" by blast
    from replace_ok [OF "1.prems"(1,2), of this that] tt
    have N: "is_fsm N" "closed_table N" "alphabet N = alphabet M" by auto
    from "1.IH" [OF tm refl _ N(1,2)] N(3) "1.prems"(3) obtain N' where
      N': "automerge N = Inr N'" "automerge (N\<lparr>alphabet := al'\<rparr>) = Inr (N'\<lparr>alphabet := al'\<rparr>)"
      by auto
    have "automerge M = Inr N'" using tm N'(1) by simp
    moreover from tm tm' N'(2) have "automerge (M\<lparr>alphabet := al'\<rparr>) = Inr (N'\<lparr>alphabet := al'\<rparr>)"
      by (subst automerge.simps) simp
    ultimately show ?thesis by blast
  qed
qed

text \<open>
  \<open>_crawl\<close> returns the same automaton for two orders of the same alphabet, when no two
  symbols have the same \<open>str\<close>.
\<close>

lemma crawl_perm:
  fixes getNext :: "'s \<Rightarrow> 'a \<Rightarrow> error + 's"
  assumes fin: "finite U" and ini: "ini \<in> U"
    and closed: "\<And>s a. s \<in> U \<Longrightarrow> a \<in> set al \<Longrightarrow> getNext s a = Inr (nxt s a) \<and> nxt s a \<in> U"
    and perm: "set al' = set al" "distinct al" "distinct al'" "inj_on str (set al)"
  shows "\<exists>M. crawl str al ini isFinal getNext = Some (Inr M) \<and>
     crawl str al' ini isFinal getNext = Some (Inr (M\<lparr>alphabet := al'\<rparr>))"
proof -
  let ?syms = "sort_key str al"
  have same: "sort_key str al' = ?syms" by (rule sort_key_perm [OF perm])
  have syms: "set al = set ?syms" "set al' = set ?syms" using perm(1) by simp_all
  have closed': "\<And>s a. s \<in> U \<Longrightarrow> a \<in> set ?syms \<Longrightarrow> getNext s a = Inr (nxt s a) \<and> nxt s a \<in> U"
    using closed by simp
  have "crawl_inv U nxt isFinal ?syms 0 [ini] [] []"
    using ini by (simp add: crawl_inv_def)
  from crawl_loop_ok [OF fin closed' this] obtain new fins m where
    loop: "crawl_loop isFinal getNext ?syms 0 [ini] [] [] = Some (Inr ([ini] @ new, fins, m))"
    and inv: "crawl_inv U nxt isFinal ?syms (length ([ini] @ new)) ([ini] @ new) fins m"
    by blast
  let ?sts = "[ini] @ new"
  define M0 where "M0 = \<lparr>alphabet = al, states = [0..<length ?sts], initial = 0,
      finals = remdups fins, map_d = m\<rparr>"
  have ne: "?sts \<noteq> []" by simp
  note M0 = crawl_fsm_ok(1-3) [OF inv ne syms(1), folded M0_def]
  have M0': "fsm_init al' [0..<length ?sts] 0 fins m = Inr (M0\<lparr>alphabet := al'\<rparr>)"
    using crawl_fsm_ok(1) [OF inv ne syms(2)] by (simp add: M0_def)
  have "set al' = set (alphabet M0)" using perm(1) by (simp add: M0_def)
  from automerge_alphabet [OF M0(2,3) this] obtain M where
    M: "automerge M0 = Inr M" "automerge (M0\<lparr>alphabet := al'\<rparr>) = Inr (M\<lparr>alphabet := al'\<rparr>)"
    by blast
  have "crawl str al ini isFinal getNext = Some (Inr M)"
    using loop M0(1) M(1) by (simp add: crawl_def)
  moreover have "crawl str al' ini isFinal getNext = Some (Inr (M\<lparr>alphabet := al'\<rparr>))"
    using loop M0' M(2) by (simp add: crawl_def same)
  ultimately show ?thesis by blast
qed

text \<open>\<open>pattern\<close> reads the alphabet as a set, and in the sorted order.\<close>

lemma preimage_alphabet [simp]: "preimage (M\<lparr>alphabet := al'\<rparr>) = preimage M"
  by (rule ext)+ (simp add: preimage_def)

lemma equation_symbols_alphabet:
  "set al' = set (alphabet M) \<Longrightarrow>
     equation_symbols oc (M\<lparr>alphabet := al'\<rparr>) r syms ls = equation_symbols oc M r syms ls"
  by (induction syms arbitrary: ls) (simp_all cong: if_cong)

lemma equation_init_alphabet:
  assumes "set al' = set (alphabet M)" "distinct (alphabet M)" "distinct al'"
    "inj_on str (set (alphabet M))"
  shows "equation_init oc str r (M\<lparr>alphabet := al'\<rparr>) = equation_init oc str r M"
  by (simp add: equation_init_def equation_symbols_alphabet [OF assms(1)]
      sort_key_perm [OF assms])

lemma discover_keys_cong:
  assumes "\<And>r. equation_init oc str r M1 = equation_init oc str r M2"
  shows "discover_keys oc str M1 ks eqs = discover_keys oc str M2 ks eqs"
  by (induction ks arbitrary: eqs) (simp_all add: assms split: option.splits)

lemma discover_loop_mono:
  assumes d: "discover_loop oc str M1 i eqs = Some y"
    and eq: "\<forall>r. equation_init oc str r M1 = equation_init oc str r M2"
  shows "discover_loop oc str M2 i eqs = Some y"
proof -
  have "(\<forall>r. equation_init oc str r M1 = equation_init oc str r M2) \<longrightarrow>
      discover_loop oc str M2 i eqs = Some y"
  proof (rule discover_loop.raw_induct [where P = "\<lambda>oc str M1 i eqs y.
      (\<forall>r. equation_init oc str r M1 = equation_init oc str r M2) \<longrightarrow>
      discover_loop oc str M2 i eqs = Some y", OF _ d])
    fix dl oc str and M1 :: "('a, 'b) fsm" and i eqs y
    assume IH: "\<And>oc str M1 i eqs y. dl oc str M1 i eqs = Some y \<Longrightarrow>
        (\<forall>r. equation_init oc str r M1 = equation_init oc str r M2) \<longrightarrow>
        discover_loop oc str M2 i eqs = Some y"
      and body: "(if i < length eqs
        then case discover_keys oc str M1 (map fst (lefts (eqs ! i))) eqs of
             Inl e \<Rightarrow> Some (Inl e)
           | Inr equations' \<Rightarrow> dl oc str M1 (i + 1) equations'
        else Some (Inr eqs)) = Some y"
    show "(\<forall>r. equation_init oc str r M1 = equation_init oc str r M2) \<longrightarrow>
        discover_loop oc str M2 i eqs = Some y"
    proof
      assume e: "\<forall>r. equation_init oc str r M1 = equation_init oc str r M2"
      then have keys: "\<And>ks es. discover_keys oc str M1 ks es = discover_keys oc str M2 ks es"
        by (intro discover_keys_cong) simp
      show "discover_loop oc str M2 i eqs = Some y"
      proof (cases "i < length eqs")
        case False
        with body show ?thesis
          by (subst discover_loop.simps) simp
      next
        case True
        show ?thesis
        proof (cases "discover_keys oc str M1 (map fst (lefts (eqs ! i))) eqs")
          case (Inl e)
          with True body have y: "y = Inl e" by simp
          from Inl keys have "discover_keys oc str M2 (map fst (lefts (eqs ! i))) eqs = Inl e"
            by simp
          with True y show ?thesis
            by (subst discover_loop.simps) simp
        next
          case (Inr eqs')
          with True body have "dl oc str M1 (i + 1) eqs' = Some y" by simp
          from IH [OF this] e have next_ok: "discover_loop oc str M2 (i + 1) eqs' = Some y"
            by blast
          from Inr keys have "discover_keys oc str M2 (map fst (lefts (eqs ! i))) eqs = Inr eqs'"
            by simp
          with True next_ok show ?thesis
            by (subst discover_loop.simps) simp
        qed
      qed
    qed
  qed
  with eq show ?thesis by blast
qed

lemma discover_loop_cong:
  assumes "\<forall>r. equation_init oc str r M1 = equation_init oc str r M2"
  shows "discover_loop oc str M1 i eqs = discover_loop oc str M2 i eqs"
proof (cases "discover_loop oc str M1 i eqs")
  case (Some y)
  from discover_loop_mono [OF this assms] Some show ?thesis by simp
next
  case None
  note n1 = this
  show ?thesis
  proof (cases "discover_loop oc str M2 i eqs")
    case None
    with n1 show ?thesis by simp
  next
    case (Some y)
    from assms have "\<forall>r. equation_init oc str r M2 = equation_init oc str r M1" by simp
    from discover_loop_mono [OF Some this] n1 show ?thesis by simp
  qed
qed

lemma pattern_perm:
  assumes "set al' = set (alphabet M)" "distinct (alphabet M)" "distinct al'"
    "inj_on str (set (alphabet M))"
  shows "pattern oc str (M\<lparr>alphabet := al'\<rparr>) = pattern oc str M"
proof -
  have e: "\<forall>r. equation_init oc str r (M\<lparr>alphabet := al'\<rparr>) = equation_init oc str r M"
    using equation_init_alphabet [OF assms] by simp
  show ?thesis
    by (simp add: pattern_def e discover_loop_cong [OF e] cong: sum.case_cong)
qed

text \<open>
  Python symbols of two types, integers and strings, with Python's \<open>str\<close> on them: the
  decimal numeral of an integer, and a string itself. So \<open>str(1) == str("1")\<close>.
\<close>

datatype sym = PyInt int | PyStr string

fun digits :: "nat \<Rightarrow> string" where
  "digits n = (if n < 10 then [char_of (48 + n)] else digits (n div 10) @ [char_of (48 + n mod 10)])"

declare digits.simps [simp del]

fun str_sym :: "sym \<Rightarrow> string" where
  "str_sym (PyInt n) = (if n < 0 then ''-'' @ digits (nat (- n)) else digits (nat n))"
| "str_sym (PyStr s) = s"

text \<open>
  An automaton over the alphabet \<open>{1, "1"}\<close>: from the initial state 0 the integer leads
  to the final state 1 and the string to the state 2. \<open>one_or_one\<close> lists the alphabet as
  \<open>1, "1"\<close>, \<open>one_or_one'\<close> is the same automaton with the alphabet listed as \<open>"1", 1\<close>.
\<close>

definition one_or_one :: "(sym, nat) fsm" where
  "one_or_one = \<lparr>alphabet = [PyInt 1, PyStr ''1''], states = [0, 1, 2], initial = 0, finals = [1],
     map_d = [(0, [(PyInt 1, 1), (PyStr ''1'', 2)]),
              (1, [(PyInt 1, 1), (PyStr ''1'', 1)]),
              (2, [(PyInt 1, 2), (PyStr ''1'', 2)])]\<rparr>"

definition one_or_one' :: "(sym, nat) fsm" where
  "one_or_one' = one_or_one\<lparr>alphabet := [PyStr ''1'', PyInt 1]\<rparr>"
text \<open>
  The operators read of an operand its alphabet, its initial state, its final states and
  its map; only the alphabet is read in an order.
\<close>

lemma pair_getNext_alphabet [simp]:
  "pair_getNext (A\<lparr>alphabet := alA\<rparr>) (B\<lparr>alphabet := alB\<rparr>) = pair_getNext A B"
  by (rule ext)+ (simp add: pair_getNext_def)

lemma or_isFinal_alphabet [simp]:
  "or_isFinal (A\<lparr>alphabet := alA\<rparr>) (B\<lparr>alphabet := alB\<rparr>) = or_isFinal A B"
  by (rule ext)+ (simp add: or_isFinal_def)

lemma and_isFinal_alphabet [simp]:
  "and_isFinal (A\<lparr>alphabet := alA\<rparr>) (B\<lparr>alphabet := alB\<rparr>) = and_isFinal A B"
  by (rule ext)+ (simp add: and_isFinal_def)

lemma add_isFinal_alphabet [simp]:
  "add_isFinal (A\<lparr>alphabet := alA\<rparr>) (B\<lparr>alphabet := alB\<rparr>) = add_isFinal A B"
  by (rule ext)+ (simp add: add_isFinal_def cong: sum.case_cong)

lemma add_getNext_alphabet [simp]:
  "add_getNext (A\<lparr>alphabet := alA\<rparr>) (B\<lparr>alphabet := alB\<rparr>) = add_getNext A B"
proof -
  have "add_next (A\<lparr>alphabet := alA\<rparr>) (B\<lparr>alphabet := alB\<rparr>) = add_next A B"
    by (rule ext)+ (simp add: add_next_def cong: sum.case_cong if_cong)
  then show ?thesis
    by (intro ext) (simp add: add_getNext_def)
qed

lemma star_getNext_alphabet [simp]:
  "star_getNext (A\<lparr>alphabet := alA\<rparr>) = star_getNext A"
proof -
  have "star_next (A\<lparr>alphabet := alA\<rparr>) = star_next A"
    by (rule ext)+ (simp add: star_next_def cong: if_cong)
  then show ?thesis
    by (intro ext) (simp add: star_getNext_def)
qed

lemma pair_crawl_perm:
  fixes A :: "('a, 'p) fsm" and B :: "('a, 'q) fsm"
  assumes A: "is_fsm A" and B: "is_fsm B" and al: "set (alphabet B) = set (alphabet A)"
    and perm: "set al' = set (alphabet A)" "distinct (alphabet A)" "distinct al'"
      "inj_on str (set (alphabet A))"
  shows "\<exists>M. crawl str (alphabet A) (initial A, initial B) isFinal (pair_getNext A B)
        = Some (Inr M) \<and>
     crawl str al' (initial A, initial B) isFinal (pair_getNext A B)
        = Some (Inr (M\<lparr>alphabet := al'\<rparr>))"
proof -
  let ?U = "set (states A) \<times> set (states B)"
  let ?nxt = "\<lambda>p a. (delta A (fst p) a, delta B (snd p) a)"
  have fin: "finite ?U" by simp
  have ini: "(initial A, initial B) \<in> ?U"
    using A B by (simp add: is_fsm_iff)
  have closed: "pair_getNext A B p a = Inr (?nxt p a) \<and> ?nxt p a \<in> ?U"
    if "p \<in> ?U" "a \<in> set (alphabet A)" for p a
  proof -
    from that have s: "fst p \<in> set (states A)" and t: "snd p \<in> set (states B)"
      and b: "a \<in> set (alphabet B)"
      using al by auto
    from is_fsm_delta [OF A s that(2)] is_fsm_delta [OF B t b]
    show ?thesis by (simp add: pair_getNext_def)
  qed
  show ?thesis
    by (rule crawl_perm [where U = ?U and nxt = ?nxt, OF fin ini closed perm])
qed

lemma fsm_add_perm:
  fixes A :: "('a, 'p) fsm" and B :: "('a, 'q) fsm"
  assumes A: "is_fsm A" and B: "is_fsm B" and al: "set (alphabet B) = set (alphabet A)"
    and perm: "set alA = set (alphabet A)" "distinct (alphabet A)" "distinct alA"
      "inj_on str (set (alphabet A))"
    and alB: "set alB = set (alphabet B)"
  shows "\<exists>M. fsm_add str A B = Some (Inr M) \<and>
     fsm_add str (A\<lparr>alphabet := alA\<rparr>) (B\<lparr>alphabet := alB\<rparr>) = Some (Inr (M\<lparr>alphabet := alA\<rparr>))"
proof -
  let ?V = "Inl ` set (states A) \<union> Inr ` set (states B)"
  let ?U = "Pow ?V"
  let ?nxt = "\<lambda>S a. \<Union>x\<in>S. add_step A B a x"
  define S0 where "S0 = (if initial A \<in> set (finals A) then {Inl (initial A), Inr (initial B)}
                  else {Inl (initial A)})"
  have fin: "finite ?U" by simp
  have ini: "S0 \<in> ?U"
    using A B by (auto simp: is_fsm_iff S0_def)
  have closed: "add_getNext A B S a = Inr (?nxt S a) \<and> ?nxt S a \<in> ?U"
    if "S \<in> ?U" "a \<in> set (alphabet A)" for S a
  proof -
    have mem: "x \<in> ?V" if "x \<in> S" for x using that \<open>S \<in> ?U\<close> by auto
    have "add_getNext A B S a = Inr (?nxt S a)"
      unfolding add_getNext_def
      by (rule collect_Inr) (rule add_next_step(1) [OF A B al that(2) mem])
    moreover have "?nxt S a \<subseteq> ?V"
      using add_next_step(2) [OF A B al that(2) mem] by blast
    ultimately show ?thesis by simp
  qed
  from crawl_perm [where U = ?U and nxt = ?nxt and isFinal = "add_isFinal A B",
      OF fin ini closed perm]
  obtain M where M: "crawl str (alphabet A) S0 (add_isFinal A B) (add_getNext A B) = Some (Inr M)"
    "crawl str alA S0 (add_isFinal A B) (add_getNext A B) = Some (Inr (M\<lparr>alphabet := alA\<rparr>))"
    by blast
  have "fsm_add str A B = Some (Inr M)"
    using M(1) al by (simp add: fsm_add_def S0_def Let_def)
  moreover have "fsm_add str (A\<lparr>alphabet := alA\<rparr>) (B\<lparr>alphabet := alB\<rparr>)
      = Some (Inr (M\<lparr>alphabet := alA\<rparr>))"
    using M(2) al perm(1) alB
    by (cases "initial A \<in> set (finals A)") (simp_all add: fsm_add_def S0_def Let_def)
  ultimately show ?thesis by blast
qed

lemma star_perm:
  fixes A :: "('a, nat) fsm"
  assumes A: "is_fsm A"
    and perm: "set alA = set (alphabet A)" "distinct (alphabet A)" "distinct alA"
      "inj_on str (set (alphabet A))"
  shows "\<exists>M. star str A = Some (Inr M) \<and>
     star str (A\<lparr>alphabet := alA\<rparr>) = Some (Inr (M\<lparr>alphabet := alA\<rparr>))"
proof -
  define omega where "omega = omega_loop (states A) 0"
  let ?V = "insert omega (set (states A))"
  let ?U = "Pow ?V"
  let ?nxt = "\<lambda>S a. \<Union>x\<in>S. star_step A omega a x"
  have fin: "finite ?U" by simp
  have ini: "{omega} \<in> ?U" by simp
  have closed: "star_getNext A omega S a = Inr (?nxt S a) \<and> ?nxt S a \<in> ?U"
    if "S \<in> ?U" "a \<in> set (alphabet A)" for S a
  proof -
    have mem: "x \<in> ?V" if "x \<in> S" for x using that \<open>S \<in> ?U\<close> by auto
    have "star_getNext A omega S a = Inr (?nxt S a)"
      unfolding star_getNext_def
      by (rule collect_Inr) (rule star_next_step(1) [OF A that(2) mem])
    moreover have "?nxt S a \<subseteq> ?V"
      using star_next_step(2) [OF A that(2) mem] by blast
    ultimately show ?thesis by simp
  qed
  from crawl_perm [where U = ?U and nxt = ?nxt and isFinal = "star_isFinal omega",
      OF fin ini closed perm]
  obtain M where M: "crawl str (alphabet A) {omega} (star_isFinal omega) (star_getNext A omega)
        = Some (Inr M)"
    "crawl str alA {omega} (star_isFinal omega) (star_getNext A omega)
        = Some (Inr (M\<lparr>alphabet := alA\<rparr>))"
    by blast
  have "star str A = Some (Inr M)"
    using M(1) by (simp add: star_def Let_def omega_def)
  moreover have "star str (A\<lparr>alphabet := alA\<rparr>) = Some (Inr (M\<lparr>alphabet := alA\<rparr>))"
    using M(2) by (simp add: star_def Let_def omega_def)
  ultimately show ?thesis by blast
qed

section \<open>Structurally identical automata\<close>

text \<open>
  Two automata are structurally identical when their fields are equal as Python compares
  them: the alphabets, the state sets and the sets of final states as sets, the initial
  states as values, and the maps as dictionaries of dictionaries. \<open>same_dict\<close> is \<open>==\<close>
  on two dictionaries: the same keys, and under each key values that are equal (for the
  rows, by \<open>==\<close> on dictionaries again). The order in which a set or a dictionary is
  iterated, here the order of the list, is not compared.
\<close>

definition same_dict :: "('v \<Rightarrow> 'v \<Rightarrow> bool) \<Rightarrow> ('k \<times> 'v) list \<Rightarrow> ('k \<times> 'v) list \<Rightarrow> bool" where
  "same_dict eqv d d' \<longleftrightarrow>
     set (map fst d) = set (map fst d') \<and>
     (\<forall>k\<in>set (map fst d). rel_option eqv (map_of d k) (map_of d' k))"

definition structurally_identical :: "('a, 'q) fsm \<Rightarrow> ('a, 'q) fsm \<Rightarrow> bool" where
  "structurally_identical M N \<longleftrightarrow>
     set (alphabet M) = set (alphabet N) \<and> set (states M) = set (states N) \<and>
     initial M = initial N \<and> set (finals M) = set (finals N) \<and>
     same_dict (same_dict (=)) (map_d M) (map_d N)"

lemma same_dict_eq: "same_dict (=) d d' \<longleftrightarrow> map_of d = map_of d'"
proof
  assume s: "same_dict (=) d d'"
  show "map_of d = map_of d'"
  proof
    fix k
    show "map_of d k = map_of d' k"
    proof (cases "k \<in> set (map fst d)")
      case True
      from s have "\<forall>k\<in>set (map fst d). map_of d k = map_of d' k"
        unfolding same_dict_def option.rel_eq by blast
      with True show ?thesis by blast
    next
      case False
      moreover from False s have "k \<notin> set (map fst d')" by (simp add: same_dict_def)
      ultimately have "map_of d k = None" "map_of d' k = None"
        by (simp_all add: map_of_eq_None_iff)
      then show ?thesis by simp
    qed
  qed
next
  assume m: "map_of d = map_of d'"
  then have "dom (map_of d) = dom (map_of d')" by simp
  then have "set (map fst d) = set (map fst d')" by (simp add: dom_map_of_conv_image_fst)
  with m show "same_dict (=) d d'" by (simp add: same_dict_def option.rel_eq)
qed

lemma same_dict_refl: "(\<And>v. eqv v v) \<Longrightarrow> same_dict eqv d d"
  by (simp add: same_dict_def option.rel_refl)

lemma structurally_identical_refl: "structurally_identical M M"
  by (simp add: structurally_identical_def same_dict_refl)

lemma structurally_identical_alphabet:
  "set al' = set (alphabet M) \<Longrightarrow> structurally_identical M (M\<lparr>alphabet := al'\<rparr>)"
  by (simp add: structurally_identical_def same_dict_refl)

lemma same_keys:
  "structurally_identical M N \<Longrightarrow> set (map fst (map_d M)) = set (map fst (map_d N))"
  by (simp add: structurally_identical_def same_dict_def)

lemma same_lookup:
  assumes "structurally_identical M N"
  shows "lookup M = lookup N"
proof (intro ext)
  fix s a
  from assms have d: "same_dict (same_dict (=)) (map_d M) (map_d N)"
    by (simp add: structurally_identical_def)
  show "lookup M s a = lookup N s a"
  proof (cases "s \<in> set (map fst (map_d M))")
    case False
    moreover from False d have "s \<notin> set (map fst (map_d N))" by (simp add: same_dict_def)
    ultimately have "map_of (map_d M) s = None" "map_of (map_d N) s = None"
      by (simp_all add: map_of_eq_None_iff)
    then show ?thesis by (simp add: lookup_def getitem_def)
  next
    case True
    with d have r: "rel_option (same_dict (=)) (map_of (map_d M) s) (map_of (map_d N) s)"
      unfolding same_dict_def by blast
    from True obtain row where row: "map_of (map_d M) s = Some row"
      by (cases "map_of (map_d M) s") (simp_all add: map_of_eq_None_iff)
    with r obtain row' where row': "map_of (map_d N) s = Some row'" "same_dict (=) row row'"
      by (cases "map_of (map_d N) s") simp_all
    from row'(2) have "map_of row = map_of row'" by (simp add: same_dict_eq)
    with row row'(1) show ?thesis by (simp add: lookup_def getitem_def)
  qed
qed

lemma same_fields:
  assumes "structurally_identical M N"
  shows "set (alphabet N) = set (alphabet M)" "set (states N) = set (states M)"
    "initial N = initial M" "set (finals N) = set (finals M)"
  using assms by (simp_all add: structurally_identical_def)

text \<open>The operators and \<open>pattern\<close> read the fields as sets and dictionaries, but for the
  order of the alphabet.\<close>

lemma omega_loop_set: "set sts = set sts' \<Longrightarrow> omega_loop sts n = omega_loop sts' n"
proof (induction sts n rule: omega_loop.induct)
  case (1 sts omegaState)
  show ?case
  proof (cases "omegaState \<in> set sts")
    case True
    with 1 have "omega_loop sts (omegaState + 1) = omega_loop sts' (omegaState + 1)" by simp
    with True "1.prems" show ?thesis
      by (subst omega_loop.simps, subst (2) omega_loop.simps) simp
  next
    case False
    with "1.prems" show ?thesis
      by (subst omega_loop.simps, subst (2) omega_loop.simps) simp
  qed
qed

lemma fsm_add_cong:
  assumes A: "structurally_identical A A'" and B: "structurally_identical B B'"
  shows "fsm_add str A' B' = fsm_add str (A\<lparr>alphabet := alphabet A'\<rparr>) (B\<lparr>alphabet := alphabet B'\<rparr>)"
proof -
  note f = same_fields [OF A] same_fields [OF B] same_lookup [OF A] same_lookup [OF B]
  have 1: "add_isFinal A' B' = add_isFinal A B"
    by (rule ext)+ (simp add: add_isFinal_def f cong: sum.case_cong)
  have "add_next A' B' = add_next A B"
    by (rule ext)+ (simp add: add_next_def f cong: sum.case_cong if_cong)
  then have 2: "add_getNext A' B' = add_getNext A B"
    by (intro ext) (simp add: add_getNext_def)
  show ?thesis
    by (simp add: fsm_add_def 1 2 f(3,4,7) cong: if_cong)
qed

lemma fsm_or_cong:
  assumes A: "structurally_identical A A'" and B: "structurally_identical B B'"
  shows "fsm_or str A' B' = fsm_or str (A\<lparr>alphabet := alphabet A'\<rparr>) (B\<lparr>alphabet := alphabet B'\<rparr>)"
proof -
  note f = same_fields [OF A] same_fields [OF B] same_lookup [OF A] same_lookup [OF B]
  have 1: "or_isFinal A' B' = or_isFinal A B"
    by (rule ext)+ (simp add: or_isFinal_def f)
  have 2: "pair_getNext A' B' = pair_getNext A B"
    by (rule ext)+ (simp add: pair_getNext_def f)
  show ?thesis
    by (simp add: fsm_or_def 1 2 f(3,7) cong: if_cong)
qed

lemma fsm_and_cong:
  assumes A: "structurally_identical A A'" and B: "structurally_identical B B'"
  shows "fsm_and str A' B' = fsm_and str (A\<lparr>alphabet := alphabet A'\<rparr>) (B\<lparr>alphabet := alphabet B'\<rparr>)"
proof -
  note f = same_fields [OF A] same_fields [OF B] same_lookup [OF A] same_lookup [OF B]
  have 1: "and_isFinal A' B' = and_isFinal A B"
    by (rule ext)+ (simp add: and_isFinal_def f)
  have 2: "pair_getNext A' B' = pair_getNext A B"
    by (rule ext)+ (simp add: pair_getNext_def f)
  show ?thesis
    by (simp add: fsm_and_def 1 2 f(3,7) cong: if_cong)
qed

lemma star_cong:
  fixes A :: "('a, nat) fsm"
  assumes A: "structurally_identical A A'"
  shows "star str A' = star str (A\<lparr>alphabet := alphabet A'\<rparr>)"
proof -
  note f = same_fields [OF A] same_lookup [OF A]
  have "star_next A' = star_next A"
    by (rule ext)+ (simp add: star_next_def f cong: if_cong)
  then have 1: "star_getNext A' = star_getNext A"
    by (intro ext) (simp add: star_getNext_def)
  have 2: "omega_loop (states A') 0 = omega_loop (states A) 0"
    by (rule omega_loop_set) (rule f(2))
  show ?thesis
    by (simp add: star_def 1 2 del: omega_loop.simps)
qed

lemma pattern_cong:
  assumes A: "structurally_identical A A'"
  shows "pattern oc str A' = pattern oc str (A\<lparr>alphabet := alphabet A'\<rparr>)"
proof -
  note f = same_fields [OF A]
  let ?A = "A\<lparr>alphabet := alphabet A'\<rparr>"
  have keys: "set (map fst (map_d A')) = set (map fst (map_d A))"
    by (rule same_keys [OF A, symmetric])
  have look: "lookup A' = lookup A"
    by (rule same_lookup [OF A, symmetric])
  have pre: "preimage A' = preimage A"
    by (rule ext)+ (simp only: preimage_def keys look)
  have sy: "equation_symbols oc A' r syms ls = equation_symbols oc ?A r syms ls" for r syms ls
    by (induction syms arbitrary: ls) (simp_all add: pre cong: if_cong)
  have e: "\<forall>r. equation_init oc str r A' = equation_init oc str r ?A"
    by (simp add: equation_init_def sy f(3))
  show ?thesis
    by (simp add: pattern_def e discover_loop_cong [OF e] f(4) cong: sum.case_cong)
qed

text \<open>
  So each operator returns on structurally identical operands the automaton it returns on
  the first operands, over the alphabet of the others.
\<close>

lemma fsm_add_same:
  fixes A A' :: "('a, 'p) fsm" and B B' :: "('a, 'q) fsm"
  assumes A: "is_fsm A" and B: "is_fsm B" and al: "set (alphabet B) = set (alphabet A)"
    and sA: "structurally_identical A A'" and sB: "structurally_identical B B'"
    and d: "distinct (alphabet A)" "distinct (alphabet A')"
    and inj: "inj_on str (set (alphabet A))"
  shows "\<exists>M. fsm_add str A B = Some (Inr M) \<and>
     fsm_add str A' B' = Some (Inr (M\<lparr>alphabet := alphabet A'\<rparr>)) \<and>
     is_fsm M \<and> alphabet M = alphabet A"
proof -
  note perm = same_fields(1) [OF sA] d inj
  from fsm_add_perm [OF A B al perm same_fields(1) [OF sB]] obtain M where
    M: "fsm_add str A B = Some (Inr M)"
      "fsm_add str (A\<lparr>alphabet := alphabet A'\<rparr>) (B\<lparr>alphabet := alphabet B'\<rparr>)
         = Some (Inr (M\<lparr>alphabet := alphabet A'\<rparr>))"
    by blast
  from fsm_add_ok [OF A B al, of str] M(1) have "is_fsm M" "alphabet M = alphabet A"
    by auto
  with M show ?thesis
    unfolding fsm_add_cong [OF sA sB] by blast
qed

lemma fsm_or_same:
  fixes A A' :: "('a, 'p) fsm" and B B' :: "('a, 'q) fsm"
  assumes A: "is_fsm A" and B: "is_fsm B" and al: "set (alphabet B) = set (alphabet A)"
    and sA: "structurally_identical A A'" and sB: "structurally_identical B B'"
    and d: "distinct (alphabet A)" "distinct (alphabet A')"
    and inj: "inj_on str (set (alphabet A))"
  shows "\<exists>M. fsm_or str A B = Some (Inr M) \<and>
     fsm_or str A' B' = Some (Inr (M\<lparr>alphabet := alphabet A'\<rparr>)) \<and>
     is_fsm M \<and> alphabet M = alphabet A"
proof -
  note perm = same_fields(1) [OF sA] d inj
  from pair_crawl_perm [OF A B al perm, of "or_isFinal A B"] obtain M where
    M: "crawl str (alphabet A) (initial A, initial B) (or_isFinal A B) (pair_getNext A B)
         = Some (Inr M)"
      "crawl str (alphabet A') (initial A, initial B) (or_isFinal A B) (pair_getNext A B)
         = Some (Inr (M\<lparr>alphabet := alphabet A'\<rparr>))"
    by blast
  have 1: "fsm_or str A B = Some (Inr M)"
    using M(1) al by (simp add: fsm_or_def)
  have 2: "fsm_or str A' B' = Some (Inr (M\<lparr>alphabet := alphabet A'\<rparr>))"
    unfolding fsm_or_cong [OF sA sB]
    using M(2) al same_fields(1) [OF sA] same_fields(1) [OF sB] by (simp add: fsm_or_def)
  from fsm_or_ok [OF A B al, of str] 1 have "is_fsm M" "alphabet M = alphabet A"
    by auto
  with 1 2 show ?thesis by blast
qed

lemma fsm_and_same:
  fixes A A' :: "('a, 'p) fsm" and B B' :: "('a, 'q) fsm"
  assumes A: "is_fsm A" and B: "is_fsm B" and al: "set (alphabet B) = set (alphabet A)"
    and sA: "structurally_identical A A'" and sB: "structurally_identical B B'"
    and d: "distinct (alphabet A)" "distinct (alphabet A')"
    and inj: "inj_on str (set (alphabet A))"
  shows "\<exists>M. fsm_and str A B = Some (Inr M) \<and>
     fsm_and str A' B' = Some (Inr (M\<lparr>alphabet := alphabet A'\<rparr>)) \<and>
     is_fsm M \<and> alphabet M = alphabet A"
proof -
  note perm = same_fields(1) [OF sA] d inj
  from pair_crawl_perm [OF A B al perm, of "and_isFinal A B"] obtain M where
    M: "crawl str (alphabet A) (initial A, initial B) (and_isFinal A B) (pair_getNext A B)
         = Some (Inr M)"
      "crawl str (alphabet A') (initial A, initial B) (and_isFinal A B) (pair_getNext A B)
         = Some (Inr (M\<lparr>alphabet := alphabet A'\<rparr>))"
    by blast
  have 1: "fsm_and str A B = Some (Inr M)"
    using M(1) al by (simp add: fsm_and_def)
  have 2: "fsm_and str A' B' = Some (Inr (M\<lparr>alphabet := alphabet A'\<rparr>))"
    unfolding fsm_and_cong [OF sA sB]
    using M(2) al same_fields(1) [OF sA] same_fields(1) [OF sB] by (simp add: fsm_and_def)
  from fsm_and_ok [OF A B al, of str] 1 have "is_fsm M" "alphabet M = alphabet A"
    by auto
  with 1 2 show ?thesis by blast
qed

lemma star_same:
  fixes C C' :: "('a, nat) fsm"
  assumes C: "is_fsm C" and sC: "structurally_identical C C'"
    and d: "distinct (alphabet C)" "distinct (alphabet C')"
    and inj: "inj_on str (set (alphabet C))"
  shows "\<exists>M. star str C = Some (Inr M) \<and>
     star str C' = Some (Inr (M\<lparr>alphabet := alphabet C'\<rparr>)) \<and>
     is_fsm M \<and> alphabet M = alphabet C"
proof -
  note perm = same_fields(1) [OF sC] d inj
  from star_perm [OF C perm] obtain M where
    M: "star str C = Some (Inr M)"
      "star str (C\<lparr>alphabet := alphabet C'\<rparr>) = Some (Inr (M\<lparr>alphabet := alphabet C'\<rparr>))"
    by blast
  from star_ok [OF C, of str] M(1) have "is_fsm M" "alphabet M = alphabet C"
    by auto
  with M show ?thesis
    unfolding star_cong [OF sC] by blast
qed

lemma pattern_same:
  assumes sA: "structurally_identical A A'"
    and d: "distinct (alphabet A)" "distinct (alphabet A')"
    and inj: "inj_on str (set (alphabet A))"
  shows "pattern oc str A' = pattern oc str A"
  unfolding pattern_cong [OF sA]
  by (rule pattern_perm [OF same_fields(1) [OF sA] d inj])

text \<open>
  \<open>epsilon\<close> builds its rows in the order in which the alphabet is iterated; on one
  alphabet iterated in two orders it returns structurally identical automata.
\<close>

lemma epsilon_same:
  assumes al: "set al' = set al"
  shows "\<exists>E E'. epsilon al = Inr E \<and> epsilon al' = Inr E' \<and> structurally_identical E E' \<and>
     is_fsm E \<and> alphabet E = al \<and> alphabet E' = al'"
proof -
  from epsilon_ok [of al] obtain E where E: "epsilon al = Inr E" "is_fsm E" by blast
  from epsilon_ok [of al'] obtain E' where E': "epsilon al' = Inr E'" by blast
  define row where "row = dict (map (\<lambda>symbol. (symbol, 1::nat)) al)"
  define row' where "row' = dict (map (\<lambda>symbol. (symbol, 1::nat)) al')"
  from E(1) have Eeq: "E = \<lparr>alphabet = al, states = remdups [0, 1], initial = 0,
      finals = remdups [0], map_d = [(0, row), (1, row)]\<rparr>"
    unfolding epsilon_def fsm_init_Inr_iff row_def by simp
  from E' have E'eq: "E' = \<lparr>alphabet = al', states = remdups [0, 1], initial = 0,
      finals = remdups [0], map_d = [(0, row'), (1, row')]\<rparr>"
    unfolding epsilon_def fsm_init_Inr_iff row'_def by simp
  have "map_of row = map_of row'"
    unfolding row_def row'_def map_of_dict_graph using al by simp
  then have rows: "same_dict (=) row row'" by (simp add: same_dict_eq)
  have "same_dict (same_dict (=)) [(0::nat, row), (1, row)] [(0, row'), (1, row')]"
    by (subst same_dict_def) (simp add: rows)
  then have "structurally_identical E E'"
    using al by (simp add: structurally_identical_def Eeq E'eq)
  with E E' show ?thesis by (auto simp: Eeq E'eq)
qed

lemma add_times_same:
  fixes out out' :: "('a, nat) fsm" and q q' :: "('a, 'q) fsm"
  assumes q: "is_fsm q" and sq: "structurally_identical q q'"
  shows "is_fsm out \<Longrightarrow> structurally_identical out out' \<Longrightarrow>
    set (alphabet q) = set (alphabet out) \<Longrightarrow>
    distinct (alphabet out) \<Longrightarrow> distinct (alphabet out') \<Longrightarrow>
    inj_on str (set (alphabet out)) \<Longrightarrow>
    \<exists>M M'. add_times str out q n = Some (Inr M) \<and> add_times str out' q' n = Some (Inr M') \<and>
       structurally_identical M M' \<and> is_fsm M \<and>
       alphabet M = alphabet out \<and> alphabet M' = alphabet out'"
proof (induction n arbitrary: out out')
  case 0
  then show ?case by simp
next
  case (Suc n)
  from fsm_add_same [OF Suc.prems(1) q Suc.prems(3) Suc.prems(2) sq Suc.prems(4,5,6)]
  obtain M1 where M1: "fsm_add str out q = Some (Inr M1)"
      "fsm_add str out' q' = Some (Inr (M1\<lparr>alphabet := alphabet out'\<rparr>))"
      "is_fsm M1" "alphabet M1 = alphabet out"
    by blast
  let ?M1' = "M1\<lparr>alphabet := alphabet out'\<rparr>"
  have al': "set (alphabet out') = set (alphabet M1)"
    using same_fields(1) [OF Suc.prems(2)] M1(4) by simp
  have s1: "structurally_identical M1 ?M1'"
    by (rule structurally_identical_alphabet [OF al'])
  have p: "set (alphabet q) = set (alphabet M1)" "distinct (alphabet M1)"
    "distinct (alphabet ?M1')" "inj_on str (set (alphabet M1))"
    using Suc.prems(3,4,5,6) M1(4) by simp_all
  from Suc.IH [OF M1(3) s1 p] obtain M M' where
    M: "add_times str M1 q n = Some (Inr M)" "add_times str ?M1' q' n = Some (Inr M')"
      "structurally_identical M M'" "is_fsm M"
      "alphabet M = alphabet M1" "alphabet M' = alphabet ?M1'"
    by blast
  have "add_times str out q (Suc n) = Some (Inr M)"
    using M1(1) M(1) by (simp add: bindC_def)
  moreover have "add_times str out' q' (Suc n) = Some (Inr M')"
    using M1(2) M(2) by (simp add: bindC_def)
  moreover have "alphabet M = alphabet out" "alphabet M' = alphabet out'"
    using M(5,6) M1(4) by simp_all
  ultimately show ?case using M(3,4) by blast
qed

lemma fsm_mul_same:
  fixes C C' :: "('a, nat) fsm"
  assumes C: "is_fsm C" and sC: "structurally_identical C C'"
    and d: "distinct (alphabet C)" "distinct (alphabet C')"
    and inj: "inj_on str (set (alphabet C))"
  shows "\<exists>M M'. fsm_mul str C (mn, mx) = Some (Inr M) \<and>
     fsm_mul str C' (mn, mx) = Some (Inr M') \<and> structurally_identical M M'"
proof -
  note alC = same_fields(1) [OF sC]
  from epsilon_same [OF alC] obtain E E' where
    E: "epsilon (alphabet C) = Inr E" "epsilon (alphabet C') = Inr E'"
      "structurally_identical E E'" "is_fsm E"
      "alphabet E = alphabet C" "alphabet E' = alphabet C'"
    by blast
  have pE: "set (alphabet C) = set (alphabet E)" "distinct (alphabet E)" "distinct (alphabet E')"
    "inj_on str (set (alphabet E))"
    using E(5,6) d inj by simp_all
  from add_times_same [OF C sC E(4) E(3) pE, of "nat mn"] obtain out out' where
    out: "add_times str E C (nat mn) = Some (Inr out)"
      "add_times str E' C' (nat mn) = Some (Inr out')"
      "structurally_identical out out'" "is_fsm out"
      "alphabet out = alphabet E" "alphabet out' = alphabet E'"
    by blast
  have pout: "distinct (alphabet out)" "distinct (alphabet out')"
    "inj_on str (set (alphabet out))"
    using out(5,6) pE by simp_all
  show ?thesis
  proof (cases mx)
    case None
    from star_same [OF C sC d inj] obtain S where
      S: "star str C = Some (Inr S)" "star str C' = Some (Inr (S\<lparr>alphabet := alphabet C'\<rparr>))"
        "is_fsm S" "alphabet S = alphabet C"
      by blast
    have sS: "structurally_identical S (S\<lparr>alphabet := alphabet C'\<rparr>)"
      by (rule structurally_identical_alphabet) (simp add: S(4) alC)
    have alS: "set (alphabet S) = set (alphabet out)"
      using S(4) out(5) E(5) by simp
    from fsm_add_same [OF out(4) S(3) alS out(3) sS pout] obtain M where
      M: "fsm_add str out S = Some (Inr M)"
        "fsm_add str out' (S\<lparr>alphabet := alphabet C'\<rparr>)
           = Some (Inr (M\<lparr>alphabet := alphabet out'\<rparr>))"
        "alphabet M = alphabet out"
      by blast
    have "structurally_identical M (M\<lparr>alphabet := alphabet out'\<rparr>)"
      by (rule structurally_identical_alphabet)
         (simp add: M(3) same_fields(1) [OF out(3)])
    moreover have "fsm_mul str C (mn, mx) = Some (Inr M)"
      using None E(1) out(1) S(1) M(1) by (simp add: fsm_mul_def bindC_def)
    moreover have "fsm_mul str C' (mn, mx) = Some (Inr (M\<lparr>alphabet := alphabet out'\<rparr>))"
      using None E(2) out(2) S(2) M(2) by (simp add: fsm_mul_def bindC_def)
    ultimately show ?thesis by blast
  next
    case (Some mx')
    have alE: "set (alphabet E) = set (alphabet C)" using E(5) by simp
    from fsm_or_same [OF C E(4) alE sC E(3) d inj] obtain q where
      q: "fsm_or str C E = Some (Inr q)"
        "fsm_or str C' E' = Some (Inr (q\<lparr>alphabet := alphabet C'\<rparr>))"
        "is_fsm q" "alphabet q = alphabet C"
      by blast
    have sq: "structurally_identical q (q\<lparr>alphabet := alphabet C'\<rparr>)"
      by (rule structurally_identical_alphabet) (simp add: q(4) alC)
    have alq: "set (alphabet q) = set (alphabet out)"
      using q(4) out(5) E(5) by simp
    from add_times_same [OF q(3) sq out(4) out(3) alq pout, of "nat (mx' - mn)"]
    obtain M M' where
      M: "add_times str out q (nat (mx' - mn)) = Some (Inr M)"
        "add_times str out' (q\<lparr>alphabet := alphabet C'\<rparr>) (nat (mx' - mn)) = Some (Inr M')"
        "structurally_identical M M'"
      by blast
    have "fsm_mul str C (mn, mx) = Some (Inr M)"
      using Some E(1) out(1) q(1) M(1) by (simp add: fsm_mul_def bindC_def)
    moreover have "fsm_mul str C' (mn, mx) = Some (Inr M')"
      using Some E(2) out(2) q(2) M(2) by (simp add: fsm_mul_def bindC_def)
    ultimately show ?thesis using M(3) by blast
  qed
qed

text \<open>
  The automata \<open>a\<close> and \<open>b\<close> of the unit tests again, with every set and every dictionary
  iterated in the reverse order.
\<close>

definition test_a_reversed :: "(char, nat) fsm" where
  "test_a_reversed = \<lparr>alphabet = ''ba'', states = [2, 1, 0], initial = 0, finals = [1],
     map_d = [(2, [(CHR ''b'', 2), (CHR ''a'', 2)]),
              (1, [(CHR ''b'', 2), (CHR ''a'', 2)]),
              (0, [(CHR ''b'', 2), (CHR ''a'', 1)])]\<rparr>"

definition test_b_reversed :: "(char, nat) fsm" where
  "test_b_reversed = \<lparr>alphabet = ''ba'', states = [2, 1, 0], initial = 0, finals = [1],
     map_d = [(2, [(CHR ''b'', 2), (CHR ''a'', 2)]),
              (1, [(CHR ''b'', 2), (CHR ''a'', 2)]),
              (0, [(CHR ''b'', 1), (CHR ''a'', 2)])]\<rparr>"

text \<open>
  C9, as stated, fails. \<open>sorted(alphabet, key=str)\<close> orders the symbols by their \<open>str\<close>
  only and is stable, so two symbols with the same \<open>str\<close> are met in the order in which
  the alphabet, a set, is iterated. \<open>one_or_one\<close> and \<open>one_or_one'\<close> are structurally
  identical, and their unions with themselves are not: the states are numbered
  differently, the final state is 1 for one and 2 for the other.
\<close>

theorem determinism_counterexample:
  "is_fsm one_or_one \<and> is_fsm one_or_one' \<and>
   structurally_identical one_or_one one_or_one' \<and>
   distinct (alphabet one_or_one) \<and> distinct (alphabet one_or_one') \<and>
   str_sym (PyInt 1) = str_sym (PyStr ''1'') \<and>
   fsm_or str_sym one_or_one one_or_one =
     Some (Inr \<lparr>alphabet = [PyInt 1, PyStr ''1''], states = [0, 1, 2], initial = 0, finals = [1],
        map_d = [(0, [(PyInt 1, 1), (PyStr ''1'', 2)]),
                 (1, [(PyInt 1, 1), (PyStr ''1'', 1)]),
                 (2, [(PyInt 1, 2), (PyStr ''1'', 2)])]\<rparr>) \<and>
   fsm_or str_sym one_or_one' one_or_one' =
     Some (Inr \<lparr>alphabet = [PyStr ''1'', PyInt 1], states = [0, 1, 2], initial = 0, finals = [2],
        map_d = [(0, [(PyStr ''1'', 1), (PyInt 1, 2)]),
                 (1, [(PyStr ''1'', 1), (PyInt 1, 1)]),
                 (2, [(PyStr ''1'', 2), (PyInt 1, 2)])]\<rparr>) \<and>
   \<not> structurally_identical
       \<lparr>alphabet = [PyInt 1, PyStr ''1''], states = [0, 1, 2], initial = 0, finals = [1::nat],
        map_d = [(0::nat, [(PyInt 1, 1::nat), (PyStr ''1'', 2)]),
                 (1, [(PyInt 1, 1), (PyStr ''1'', 1)]),
                 (2, [(PyInt 1, 2), (PyStr ''1'', 2)])]\<rparr>
       \<lparr>alphabet = [PyStr ''1'', PyInt 1], states = [0, 1, 2], initial = 0, finals = [2],
        map_d = [(0, [(PyStr ''1'', 1), (PyInt 1, 2)]),
                 (1, [(PyStr ''1'', 1), (PyInt 1, 1)]),
                 (2, [(PyStr ''1'', 2), (PyInt 1, 2)])]\<rparr>"
proof -
  have 1: "is_fsm one_or_one" "is_fsm one_or_one'" by code_simp+
  have 2: "structurally_identical one_or_one one_or_one'"
    unfolding one_or_one'_def
    by (rule structurally_identical_alphabet) (auto simp: one_or_one_def)
  have 3: "distinct (alphabet one_or_one)" "distinct (alphabet one_or_one')"
    "str_sym (PyInt 1) = str_sym (PyStr ''1'')"
    by code_simp+
  have 4: "fsm_or str_sym one_or_one one_or_one =
     Some (Inr \<lparr>alphabet = [PyInt 1, PyStr ''1''], states = [0, 1, 2], initial = 0, finals = [1],
        map_d = [(0, [(PyInt 1, 1), (PyStr ''1'', 2)]),
                 (1, [(PyInt 1, 1), (PyStr ''1'', 1)]),
                 (2, [(PyInt 1, 2), (PyStr ''1'', 2)])]\<rparr>)"
    by code_simp
  have 5: "fsm_or str_sym one_or_one' one_or_one' =
     Some (Inr \<lparr>alphabet = [PyStr ''1'', PyInt 1], states = [0, 1, 2], initial = 0, finals = [2],
        map_d = [(0, [(PyStr ''1'', 1), (PyInt 1, 2)]),
                 (1, [(PyStr ''1'', 1), (PyInt 1, 1)]),
                 (2, [(PyStr ''1'', 2), (PyInt 1, 2)])]\<rparr>)"
    by code_simp
  have 6: "\<not> structurally_identical
       \<lparr>alphabet = [PyInt 1, PyStr ''1''], states = [0, 1, 2], initial = 0, finals = [1::nat],
        map_d = [(0::nat, [(PyInt 1, 1::nat), (PyStr ''1'', 2)]),
                 (1, [(PyInt 1, 1), (PyStr ''1'', 1)]),
                 (2, [(PyInt 1, 2), (PyStr ''1'', 2)])]\<rparr>
       \<lparr>alphabet = [PyStr ''1'', PyInt 1], states = [0, 1, 2], initial = 0, finals = [2],
        map_d = [(0, [(PyStr ''1'', 1), (PyInt 1, 2)]),
                 (1, [(PyStr ''1'', 1), (PyInt 1, 1)]),
                 (2, [(PyStr ''1'', 2), (PyInt 1, 2)])]\<rparr>"
    by (simp add: structurally_identical_def)
  from 1 2 3 4 5 6 show ?thesis by blast
qed

text \<open>
  C9, amended. Let \<open>A'\<close>, \<open>B'\<close> and \<open>C'\<close> be structurally identical to the automata \<open>A\<close>,
  \<open>B\<close> and \<open>C\<close>, over alphabets in which no two symbols have the same \<open>str\<close>. Then
  concatenation, union and intersection return on \<open>A'\<close> and \<open>B'\<close>, and \<open>star\<close> returns
  on \<open>C'\<close>, the automaton returned on \<open>A\<close> and \<open>B\<close>, and on \<open>C\<close>: the same states, initial
  state, final states and map, over the alphabet of the operand. The repetitions
  \<open>C * (min, max)\<close> and \<open>C' * (min, max)\<close> return structurally identical automata,
  whatever the multiplier (the rows of \<open>epsilon\<close>, which is returned as it is when there
  is nothing to concatenate, follow the order of the alphabet). And \<open>pattern\<close> gives on
  \<open>A'\<close> what it gives on \<open>A\<close>. \<open>star\<close> and the repetition are modelled for automata whose
  states are natural numbers, hence \<open>C\<close>.
\<close>

theorem determinism:
  fixes A A' :: "('a, 'p) fsm" and B B' :: "('a, 'q) fsm" and C C' :: "('a, nat) fsm"
  assumes "is_fsm A" "is_fsm B" "is_fsm C" "set (alphabet B) = set (alphabet A)"
    and "structurally_identical A A'" "structurally_identical B B'"
      "structurally_identical C C'"
    and "distinct (alphabet A)" "distinct (alphabet A')"
      "distinct (alphabet C)" "distinct (alphabet C')"
    and "inj_on str (set (alphabet A))" "inj_on str (set (alphabet C))"
  shows "(\<exists>M. fsm_add str A B = Some (Inr M) \<and>
       fsm_add str A' B' = Some (Inr (M\<lparr>alphabet := alphabet A'\<rparr>))) \<and>
     (\<exists>M. fsm_or str A B = Some (Inr M) \<and>
       fsm_or str A' B' = Some (Inr (M\<lparr>alphabet := alphabet A'\<rparr>))) \<and>
     (\<exists>M. fsm_and str A B = Some (Inr M) \<and>
       fsm_and str A' B' = Some (Inr (M\<lparr>alphabet := alphabet A'\<rparr>))) \<and>
     (\<exists>M. star str C = Some (Inr M) \<and>
       star str C' = Some (Inr (M\<lparr>alphabet := alphabet C'\<rparr>))) \<and>
     (\<forall>mn mx. \<exists>M M'. fsm_mul str C (mn, mx) = Some (Inr M) \<and>
       fsm_mul str C' (mn, mx) = Some (Inr M') \<and> structurally_identical M M') \<and>
     pattern otherchars str A' = pattern otherchars str A"
proof -
  have add: "\<exists>M. fsm_add str A B = Some (Inr M) \<and>
       fsm_add str A' B' = Some (Inr (M\<lparr>alphabet := alphabet A'\<rparr>))"
    using fsm_add_same [OF assms(1,2,4,5,6,8,9,12)] by blast
  have un: "\<exists>M. fsm_or str A B = Some (Inr M) \<and>
       fsm_or str A' B' = Some (Inr (M\<lparr>alphabet := alphabet A'\<rparr>))"
    using fsm_or_same [OF assms(1,2,4,5,6,8,9,12)] by blast
  have inter: "\<exists>M. fsm_and str A B = Some (Inr M) \<and>
       fsm_and str A' B' = Some (Inr (M\<lparr>alphabet := alphabet A'\<rparr>))"
    using fsm_and_same [OF assms(1,2,4,5,6,8,9,12)] by blast
  have st: "\<exists>M. star str C = Some (Inr M) \<and>
       star str C' = Some (Inr (M\<lparr>alphabet := alphabet C'\<rparr>))"
    using star_same [OF assms(3,7,10,11,13)] by blast
  have mul: "\<forall>mn mx. \<exists>M M'. fsm_mul str C (mn, mx) = Some (Inr M) \<and>
       fsm_mul str C' (mn, mx) = Some (Inr M') \<and> structurally_identical M M'"
    using fsm_mul_same [OF assms(3,7,10,11,13)] by blast
  have pat: "pattern otherchars str A' = pattern otherchars str A"
    by (rule pattern_same [OF assms(5,8,9,12)])
  from add un inter st mul pat show ?thesis by blast
qed

theorem determinism_witness:
  "is_fsm test_a \<and> is_fsm test_b \<and> set (alphabet test_b) = set (alphabet test_a) \<and>
   structurally_identical test_a test_a_reversed \<and>
   structurally_identical test_b test_b_reversed \<and>
   distinct (alphabet test_a) \<and> distinct (alphabet test_a_reversed) \<and>
   inj_on str_char (set (alphabet test_a)) \<and>
   (\<exists>M. fsm_add str_char test_a test_b = Some (Inr M) \<and>
       fsm_add str_char test_a_reversed test_b_reversed = Some (Inr (M\<lparr>alphabet := ''ba''\<rparr>))) \<and>
   (\<exists>M. fsm_or str_char test_a test_b = Some (Inr M) \<and>
       fsm_or str_char test_a_reversed test_b_reversed = Some (Inr (M\<lparr>alphabet := ''ba''\<rparr>))) \<and>
   (\<exists>M. fsm_and str_char test_a test_b = Some (Inr M) \<and>
       fsm_and str_char test_a_reversed test_b_reversed = Some (Inr (M\<lparr>alphabet := ''ba''\<rparr>))) \<and>
   (\<exists>M. star str_char test_a = Some (Inr M) \<and>
       star str_char test_a_reversed = Some (Inr (M\<lparr>alphabet := ''ba''\<rparr>))) \<and>
   (\<exists>M M'. fsm_mul str_char test_a (1, Some 2) = Some (Inr M) \<and>
       fsm_mul str_char test_a_reversed (1, Some 2) = Some (Inr M') \<and>
       structurally_identical M M') \<and>
   (\<exists>M M'. fsm_mul str_char test_a (0, Some 0) = Some (Inr M) \<and>
       fsm_mul str_char test_a_reversed (0, Some 0) = Some (Inr M') \<and>
       structurally_identical M M') \<and>
   (\<exists>M M'. fsm_mul str_char test_a (1, None) = Some (Inr M) \<and>
       fsm_mul str_char test_a_reversed (1, None) = Some (Inr M') \<and>
       structurally_identical M M') \<and>
   pattern (CHR ''?'') str_char test_a_reversed = pattern (CHR ''?'') str_char test_a"
proof -
  have h1: "is_fsm test_a" "is_fsm test_b" by code_simp+
  have h2: "set (alphabet test_b) = set (alphabet test_a)"
    by (simp add: test_a_def test_b_def)
  have h3: "structurally_identical test_a test_a_reversed"
    "structurally_identical test_b test_b_reversed"
    by code_simp+
  have h4: "distinct (alphabet test_a)" "distinct (alphabet test_a_reversed)"
    by (simp_all add: test_a_def test_a_reversed_def)
  have h5: "inj_on str_char (set (alphabet test_a))"
    by (simp add: inj_on_def str_char_def)
  have al: "alphabet test_a_reversed = ''ba''" by (simp add: test_a_reversed_def)
  from determinism [OF h1(1) h1(2) h1(1) h2 h3(1) h3(2) h3(1) h4 h4 h5 h5, of "CHR ''?''"]
  have r: "(\<exists>M. fsm_add str_char test_a test_b = Some (Inr M) \<and>
       fsm_add str_char test_a_reversed test_b_reversed = Some (Inr (M\<lparr>alphabet := ''ba''\<rparr>)))"
    "(\<exists>M. fsm_or str_char test_a test_b = Some (Inr M) \<and>
       fsm_or str_char test_a_reversed test_b_reversed = Some (Inr (M\<lparr>alphabet := ''ba''\<rparr>)))"
    "(\<exists>M. fsm_and str_char test_a test_b = Some (Inr M) \<and>
       fsm_and str_char test_a_reversed test_b_reversed = Some (Inr (M\<lparr>alphabet := ''ba''\<rparr>)))"
    "(\<exists>M. star str_char test_a = Some (Inr M) \<and>
       star str_char test_a_reversed = Some (Inr (M\<lparr>alphabet := ''ba''\<rparr>)))"
    "\<And>mn mx. \<exists>M M'. fsm_mul str_char test_a (mn, mx) = Some (Inr M) \<and>
       fsm_mul str_char test_a_reversed (mn, mx) = Some (Inr M') \<and>
       structurally_identical M M'"
    "pattern (CHR ''?'') str_char test_a_reversed = pattern (CHR ''?'') str_char test_a"
    unfolding al by blast+
  from h1 h2 h3 h4 h5 r(1-4) r(5) [of 1 "Some 2"] r(5) [of 0 "Some 0"] r(5) [of 1 None] r(6)
  show ?thesis by blast
qed

end
